theory Spec2Isabelle
  imports Main
begin

section \<open>Paths: the functions of Node's \<open>path\<close> module that the registry calls\<close>

text \<open>
  \<open>FilesystemStorage\<close> builds every path with \<open>join\<close> and reports listed entries with
  \<open>relative\<close> (POSIX flavour). Both work on the segments between slashes; a path string
  is cut at every \<open>/\<close>, as \<open>String.prototype.split\<close> does.
\<close>

fun split_sep :: "string \<Rightarrow> string list" where
  "split_sep [] = [[]]"
| "split_sep (c # cs) =
     (if c = CHR ''/'' then [] # split_sep cs
      else (case split_sep cs of [] \<Rightarrow> [[c]] | s # ss \<Rightarrow> (c # s) # ss))"

fun join_sep :: "string list \<Rightarrow> string" where
  "join_sep [] = []"
| "join_sep [s] = s"
| "join_sep (s # t # ts) = s @ ''/'' @ join_sep (t # ts)"

definition isAbsolute :: "string \<Rightarrow> bool" where
  "isAbsolute p = (case p of [] \<Rightarrow> False | c # _ \<Rightarrow> c = CHR ''/'')"

definition trailingSeparator :: "string \<Rightarrow> bool" where
  "trailingSeparator p = (p \<noteq> [] \<and> last p = CHR ''/'')"

text \<open>
  One step of \<open>normalizeString\<close>: \<open>res\<close> is the stack of segments kept so far, the last
  one first. Empty segments and \<open>.\<close> are dropped; \<open>..\<close> removes the last kept segment
  unless there is none or it is \<open>..\<close> itself, and is then kept only above a relative
  path's start (\<open>allowAboveRoot\<close>).
\<close>

definition norm_step :: "bool \<Rightarrow> string \<Rightarrow> string list \<Rightarrow> string list" where
  "norm_step allowAboveRoot s res =
     (if s = [] \<or> s = ''.'' then res
      else if s = ''..'' then
        (case res of
           [] \<Rightarrow> if allowAboveRoot then [s] else []
         | r # rs \<Rightarrow> if r \<noteq> ''..'' then rs
                    else if allowAboveRoot then s # res else res)
      else s # res)"

definition normalizeString :: "bool \<Rightarrow> string list \<Rightarrow> string list" where
  "normalizeString allowAboveRoot segs = rev (fold (norm_step allowAboveRoot) segs [])"

definition normalize_path :: "string \<Rightarrow> string" where
  "normalize_path path =
     (if path = [] then ''.''
      else
        let p = join_sep (normalizeString (\<not> isAbsolute path) (split_sep path)) in
        if p = [] then
          (if isAbsolute path then ''/''
           else if trailingSeparator path then ''./'' else ''.'')
        else
          (if isAbsolute path then ''/'' else []) @ p @
          (if trailingSeparator path then ''/'' else []))"

text \<open>\<open>join(a, b)\<close>: the non-empty arguments glued with a slash, then normalised.\<close>

definition join :: "string \<Rightarrow> string \<Rightarrow> string" where
  "join a b =
     (if a = [] \<and> b = [] then ''.''
      else if a = [] then normalize_path b
      else if b = [] then normalize_path a
      else normalize_path (a @ ''/'' @ b))"

text \<open>
  \<open>resolve\<close> makes a path absolute against the working directory and returns its
  segments from the file-system root; \<open>..\<close> at the root stays at the root. The operating
  system reaches the same node when it is handed the path.
\<close>

definition resolve :: "string \<Rightarrow> string \<Rightarrow> string list" where
  "resolve cwd p =
     normalizeString False (split_sep (if isAbsolute p then p else cwd @ ''/'' @ p))"

fun relative_segs :: "string list \<Rightarrow> string list \<Rightarrow> string list" where
  "relative_segs (a # as) (b # bs) =
     (if a = b then relative_segs as bs
      else map (\<lambda>_. ''..'') (a # as) @ (b # bs))"
| "relative_segs as bs = map (\<lambda>_. ''..'') as @ bs"

definition relative :: "string \<Rightarrow> string \<Rightarrow> string \<Rightarrow> string" where
  "relative cwd from to = join_sep (relative_segs (resolve cwd from) (resolve cwd to))"


section \<open>The file system under the storage\<close>

text \<open>
  \<open>fs/promises\<close> on a POSIX system (Linux), as far as \<open>FilesystemStorage\<close> uses it: a
  tree of directories and regular files (no links, no permissions), the process's
  working directory, and the error codes a call can reject with. A path is a string of
  bytes. A name longer than \<open>NAME_MAX\<close> bytes cannot be looked up or created, and a path
  of \<open>PATH_MAX\<close> bytes or more cannot be handed to a system call: both are
  ENAMETOOLONG. A path that holds a null byte is refused by Node before any system
  call, with the code ERR_INVALID_ARG_VALUE. A directory keeps its entries in the order
  \<open>readdir\<close> reports them, which is by name, byte by byte.
\<close>

datatype errno = ENOENT | ENOTDIR | EISDIR | EEXIST | ENAMETOOLONG | ERR_INVALID_ARG_VALUE

definition NAME_MAX :: nat where
  "NAME_MAX = 255"

definition PATH_MAX :: nat where
  "PATH_MAX = 4096"

text \<open>What a path is rejected with before it is resolved, if it is.\<close>

definition path_error :: "string \<Rightarrow> errno option" where
  "path_error p =
     (if CHR 0x00 \<in> set p then Some ERR_INVALID_ARG_VALUE
      else if p = [] then Some ENOENT
      else if PATH_MAX \<le> length p then Some ENAMETOOLONG
      else None)"

datatype 'b node = File 'b | Dir "'b entries"
  and 'b entries = ENil | ECons string "'b node" "'b entries"

record 'b filesystem =
  tree :: "'b node"
  cwd :: string

fun find_entry :: "'b entries \<Rightarrow> string \<Rightarrow> 'b node option" where
  "find_entry ENil s = None"
| "find_entry (ECons k n es) s = (if k = s then Some n else find_entry es s)"

text \<open>The order of the names of a directory, as \<open>strcmp\<close> compares them.\<close>

fun strcmp_less :: "string \<Rightarrow> string \<Rightarrow> bool" where
  "strcmp_less [] [] = False"
| "strcmp_less [] (b # bs) = True"
| "strcmp_less (a # as) [] = False"
| "strcmp_less (a # as) (b # bs) =
     ((of_char a :: nat) < of_char b \<or> (a = b \<and> strcmp_less as bs))"

text \<open>An entry is replaced where it stands; a new name goes to its place in the order.\<close>

fun put_entry :: "'b entries \<Rightarrow> string \<Rightarrow> 'b node \<Rightarrow> 'b entries" where
  "put_entry ENil s n = ECons s n ENil"
| "put_entry (ECons k m es) s n =
     (if k = s then ECons k n es
      else if strcmp_less s k \<and> find_entry es s = None then ECons s n (ECons k m es)
      else ECons k m (put_entry es s n))"

text \<open>
  Path resolution, one name after the other: below a regular file nothing can be looked
  up (ENOTDIR), a name that is too long is ENAMETOOLONG, a missing entry ENOENT.
\<close>

fun lookup :: "'b node \<Rightarrow> string list \<Rightarrow> errno + 'b node" where
  "lookup n [] = Inr n"
| "lookup (File c) (s # ss) = Inl ENOTDIR"
| "lookup (Dir es) (s # ss) =
     (if NAME_MAX < length s then Inl ENAMETOOLONG
      else case find_entry es s of None \<Rightarrow> Inl ENOENT | Some n \<Rightarrow> lookup n ss)"

text \<open>
  \<open>mkdir(path, {recursive: true})\<close>: every missing directory on the way is created, from
  the top; a regular file on the way is ENOTDIR, a regular file at the path itself
  EEXIST. The directories made before a name that is too long stay, so the tree is
  returned also with an error.
\<close>

fun mkdir_p :: "'b node \<Rightarrow> string list \<Rightarrow> (errno + unit) \<times> 'b node" where
  "mkdir_p (File c) [] = (Inl EEXIST, File c)"
| "mkdir_p (Dir es) [] = (Inr (), Dir es)"
| "mkdir_p (File c) (s # ss) = (Inl ENOTDIR, File c)"
| "mkdir_p (Dir es) (s # ss) =
     (if NAME_MAX < length s then (Inl ENAMETOOLONG, Dir es)
      else
        case mkdir_p (case find_entry es s of None \<Rightarrow> Dir ENil | Some n \<Rightarrow> n) ss of
          (r, n') \<Rightarrow> (r, Dir (put_entry es s n')))"

text \<open>
  \<open>writeFile(path, content)\<close> opens with flag \<open>w\<close>: the file is created in an existing
  directory or its content replaced; a directory at the path is EISDIR.
\<close>

fun write_at :: "'b node \<Rightarrow> string list \<Rightarrow> 'b \<Rightarrow> errno + 'b node" where
  "write_at (File old) [] c = Inr (File c)"
| "write_at (Dir es) [] c = Inl EISDIR"
| "write_at (File old) (s # ss) c = Inl ENOTDIR"
| "write_at (Dir es) (s # ss) c =
     (if NAME_MAX < length s then Inl ENAMETOOLONG
      else
        case find_entry es s of
          None \<Rightarrow> if ss = [] then Inr (Dir (put_entry es s (File c))) else Inl ENOENT
        | Some n \<Rightarrow>
            (case write_at n ss c of
               Inl e \<Rightarrow> Inl e
             | Inr n' \<Rightarrow> Inr (Dir (put_entry es s n'))))"

text \<open>
  \<open>readdir(path, {recursive: true})\<close>, as Node's \<open>readdirRecursive\<close> runs it: the
  directories read wait on a stack. Taking one from the stack, every entry \<open>ent\<close> of it
  is reported as \<open>relative(originalPath, join(path, ent))\<close>, and each entry that \<open>stat\<close>
  finds to be a directory is read and pushed. So the entries of a directory come
  first, then what is below its last subdirectory, and so on back to the first. \<open>stat\<close>
  fails on a path of \<open>PATH_MAX\<close> bytes or more, and such a directory is not entered.
\<close>

fun read_level :: "string \<Rightarrow> string \<Rightarrow> string \<Rightarrow> 'b entries \<Rightarrow> string list" where
  "read_level wd originalPath path ENil = []"
| "read_level wd originalPath path (ECons ent n es) =
     relative wd originalPath (join path ent) # read_level wd originalPath path es"

fun read_queue :: "string \<Rightarrow> string \<Rightarrow> string \<Rightarrow> 'b entries \<Rightarrow> string list" where
  "read_queue wd originalPath path ENil = []"
| "read_queue wd originalPath path (ECons ent (File c) es) =
     read_queue wd originalPath path es"
| "read_queue wd originalPath path (ECons ent (Dir sub) es) =
     read_queue wd originalPath path es @
     (if length (join path ent) < PATH_MAX then
        read_level wd originalPath (join path ent) sub @
        read_queue wd originalPath (join path ent) sub
      else [])"

definition readdirRecursive :: "string \<Rightarrow> string \<Rightarrow> 'b entries \<Rightarrow> string list" where
  "readdirRecursive wd originalPath es =
     read_level wd originalPath originalPath es @ read_queue wd originalPath originalPath es"

definition fs_mkdir :: "'b filesystem \<Rightarrow> string \<Rightarrow> (errno + unit) \<times> 'b filesystem" where
  "fs_mkdir fs p =
     (case path_error p of
        Some e \<Rightarrow> (Inl e, fs)
      | None \<Rightarrow>
          (case mkdir_p (tree fs) (resolve (cwd fs) p) of
             (r, t) \<Rightarrow> (r, fs\<lparr>tree := t\<rparr>)))"

text \<open>
  A path that ends in a slash names a directory: opening it for writing is EISDIR once
  its parent is found, and reading a regular file through it is ENOTDIR.
\<close>

definition fs_writeFile :: "'b filesystem \<Rightarrow> string \<Rightarrow> 'b \<Rightarrow> errno + 'b filesystem" where
  "fs_writeFile fs p c =
     (case path_error p of
        Some e \<Rightarrow> Inl e
      | None \<Rightarrow>
        let segs = resolve (cwd fs) p in
        if trailingSeparator p then
          (case lookup (tree fs) (butlast segs) of
             Inl e \<Rightarrow> Inl e
           | Inr (File old) \<Rightarrow> Inl ENOTDIR
           | Inr (Dir es) \<Rightarrow> Inl EISDIR)
        else
          (case write_at (tree fs) segs c of
             Inl e \<Rightarrow> Inl e
           | Inr t \<Rightarrow> Inr (fs\<lparr>tree := t\<rparr>)))"

definition fs_readFile :: "'b filesystem \<Rightarrow> string \<Rightarrow> errno + 'b" where
  "fs_readFile fs p =
     (case path_error p of
        Some e \<Rightarrow> Inl e
      | None \<Rightarrow>
          (case lookup (tree fs) (resolve (cwd fs) p) of
             Inl e \<Rightarrow> Inl e
           | Inr (Dir es) \<Rightarrow> Inl EISDIR
           | Inr (File c) \<Rightarrow> if trailingSeparator p then Inl ENOTDIR else Inr c))"

definition fs_readdir :: "'b filesystem \<Rightarrow> string \<Rightarrow> errno + string list" where
  "fs_readdir fs p =
     (case path_error p of
        Some e \<Rightarrow> Inl e
      | None \<Rightarrow>
          (case lookup (tree fs) (resolve (cwd fs) p) of
             Inl e \<Rightarrow> Inl e
           | Inr (File c) \<Rightarrow> Inl ENOTDIR
           | Inr (Dir es) \<Rightarrow> Inr (readdirRecursive (cwd fs) p es)))"

section \<open>FilesystemStorage\<close>

text \<open>
  The storage is its \<open>rootDir\<close>; each method (\<open>write\<close>, \<open>read\<close>, \<open>list\<close>) takes the
  file system it runs on. \<open>write\<close> returns the file system it leaves behind also when it
  rejects, since the directories made by \<open>mkdir\<close> stay when \<open>mkdir\<close> or \<open>writeFile\<close> fails
  afterwards.
\<close>

definition storage_write :: "string \<Rightarrow> 'b filesystem \<Rightarrow> string \<Rightarrow> 'b \<Rightarrow> (errno + unit) \<times> 'b filesystem" where
  "storage_write rootDir fs path content =
     (let fullPath = join rootDir path in
      case fs_mkdir fs (join fullPath ''..'') of
        (Inl e, fs1) \<Rightarrow> (Inl e, fs1)
      | (Inr u, fs1) \<Rightarrow>
          (case fs_writeFile fs1 fullPath content of
             Inl e \<Rightarrow> (Inl e, fs1)
           | Inr fs2 \<Rightarrow> (Inr (), fs2)))"

definition storage_read :: "string \<Rightarrow> 'b filesystem \<Rightarrow> string \<Rightarrow> errno + 'b" where
  "storage_read rootDir fs path = (let fullPath = join rootDir path in fs_readFile fs fullPath)"

definition storage_list :: "string \<Rightarrow> 'b filesystem \<Rightarrow> string \<Rightarrow> errno + string list" where
  "storage_list rootDir fs prefix =
     (let fullPath = join rootDir prefix in
      case fs_readdir fs fullPath of
        Inr entries \<Rightarrow>
          Inr (map (\<lambda>entry.
                 let entryPath = join prefix entry
                 in relative (cwd fs) rootDir (join rootDir entryPath)) entries)
      | Inl error \<Rightarrow> if error \<noteq> ENOENT then Inl error else Inr [])"

section \<open>JSON values and the zod schemas of the registry\<close>

datatype json =
    JNull
  | JBool bool
  | JNum int
  | JStr string
  | JArr "json list"
  | JObj "(string \<times> json) list"

type_synonym zschema = "json \<Rightarrow> json option"

definition z_string :: zschema where
  "z_string j = (case j of JStr s \<Rightarrow> Some j | _ \<Rightarrow> None)"

definition z_number :: zschema where
  "z_number j = (case j of JNum n \<Rightarrow> Some j | _ \<Rightarrow> None)"

definition z_boolean :: zschema where
  "z_boolean j = (case j of JBool b \<Rightarrow> Some j | _ \<Rightarrow> None)"

definition z_enum :: "string list \<Rightarrow> zschema" where
  "z_enum options j = (case j of JStr s \<Rightarrow> if s \<in> set options then Some j else None | _ \<Rightarrow> None)"

fun parse_all :: "zschema \<Rightarrow> json list \<Rightarrow> json list option" where
  "parse_all element [] = Some []"
| "parse_all element (x # xs) =
     (case element x of
        None \<Rightarrow> None
      | Some v \<Rightarrow> (case parse_all element xs of None \<Rightarrow> None | Some vs \<Rightarrow> Some (v # vs)))"

definition z_array :: "zschema \<Rightarrow> zschema" where
  "z_array element j =
     (case j of JArr xs \<Rightarrow> map_option JArr (parse_all element xs) | _ \<Rightarrow> None)"

fun parse_entries :: "zschema \<Rightarrow> (string \<times> json) list \<Rightarrow> (string \<times> json) list option" where
  "parse_entries valueSchema [] = Some []"
| "parse_entries valueSchema ((k, x) # kvs) =
     (case valueSchema x of
        None \<Rightarrow> None
      | Some v \<Rightarrow>
          (case parse_entries valueSchema kvs of
             None \<Rightarrow> None
           | Some vs \<Rightarrow> Some ((k, v) # vs)))"

definition z_record :: "zschema \<Rightarrow> zschema" where
  "z_record valueSchema j =
     (case j of JObj kvs \<Rightarrow> map_option JObj (parse_entries valueSchema kvs) | _ \<Rightarrow> None)"

datatype presence = Required | Optional

fun parse_shape ::
  "(string \<times> presence \<times> zschema) list \<Rightarrow> (string \<times> json) list \<Rightarrow> (string \<times> json) list option" where
  "parse_shape [] kvs = Some []"
| "parse_shape ((key, presence, fieldSchema) # shape) kvs =
     (case map_of kvs key of
        None \<Rightarrow> (case presence of Optional \<Rightarrow> parse_shape shape kvs | Required \<Rightarrow> None)
      | Some x \<Rightarrow>
          (case fieldSchema x of
             None \<Rightarrow> None
           | Some v \<Rightarrow>
               (case parse_shape shape kvs of
                  None \<Rightarrow> None
                | Some vs \<Rightarrow> Some ((key, v) # vs))))"

definition z_object :: "(string \<times> presence \<times> zschema) list \<Rightarrow> zschema" where
  "z_object shape j =
     (case j of JObj kvs \<Rightarrow> map_option JObj (parse_shape shape kvs) | _ \<Rightarrow> None)"

definition ComponentMetadataSchema :: zschema where
  "ComponentMetadataSchema = z_object
     [(''name'', Required, z_string),
      (''version'', Required, z_string),
      (''description'', Optional, z_string),
      (''author'', Optional, z_string),
      (''license'', Optional, z_string),
      (''repository'', Optional, z_string),
      (''dependencies'', Optional, z_record z_string),
      (''peerDependencies'', Optional, z_record z_string),
      (''style'', Optional, z_enum [''default'', ''minimal'']),
      (''typescript'', Optional, z_boolean),
      (''tags'', Optional, z_array z_string)]"

definition ComponentFileSchema :: zschema where
  "ComponentFileSchema = z_object
     [(''path'', Required, z_string),
      (''content'', Required, z_string),
      (''type'', Required,
         z_enum [''typescript'', ''javascript'', ''css'', ''scss'', ''less'', ''json''])]"

definition ComponentSchema :: zschema where
  "ComponentSchema = z_object
     [(''metadata'', Required, ComponentMetadataSchema),
      (''files'', Required, z_array ComponentFileSchema),
      (''readme'', Optional, z_string),
      (''changelog'', Optional, z_string)]"

definition ComponentVersionSchema :: zschema where
  "ComponentVersionSchema = z_object
     [(''version'', Required, z_string),
      (''createdAt'', Required, z_string),
      (''updatedAt'', Required, z_string),
      (''deprecated'', Optional, z_boolean),
      (''deprecationMessage'', Optional, z_string)]"

definition ComponentListResponseSchema :: zschema where
  "ComponentListResponseSchema = z_object
     [(''components'', Required, z_array (z_object
         [(''name'', Required, z_string),
          (''latestVersion'', Required, z_string),
          (''description'', Optional, z_string),
          (''tags'', Optional, z_array z_string)])),
      (''total'', Required, z_number),
      (''page'', Optional, z_number),
      (''pageSize'', Optional, z_number)]"

definition ComponentDetailResponseSchema :: zschema where
  "ComponentDetailResponseSchema = z_object
     [(''component'', Required, ComponentSchema),
      (''versions'', Required, z_array ComponentVersionSchema)]"

section \<open>Errors and responses\<close>

datatype thrown =
    ZodError
  | APIError string string
  | SystemError errno
  | SyntaxError
  | TypeError

fun errno_code :: "errno \<Rightarrow> string" where
  "errno_code ENOENT = ''ENOENT''"
| "errno_code ENOTDIR = ''ENOTDIR''"
| "errno_code EISDIR = ''EISDIR''"
| "errno_code EEXIST = ''EEXIST''"
| "errno_code ENAMETOOLONG = ''ENAMETOOLONG''"
| "errno_code ERR_INVALID_ARG_VALUE = ''ERR_INVALID_ARG_VALUE''"

fun error_code :: "thrown \<Rightarrow> string option" where
  "error_code (APIError code message) = Some code"
| "error_code (SystemError e) = Some (errno_code e)"
| "error_code other = None"

datatype body = Payload json | Failure string string

record response =
  status :: nat
  body :: body

definition errorHandler :: "thrown \<Rightarrow> response" where
  "errorHandler error =
     (case error of
        ZodError \<Rightarrow>
          \<lparr>status = 400, body = Failure ''VALIDATION_ERROR'' ''Invalid request data''\<rparr>
      | APIError code message \<Rightarrow>
          \<lparr>status =
             (case map_of [(''COMPONENT_NOT_FOUND'', 404), (''VERSION_NOT_FOUND'', 404),
                           (''VERSION_CONFLICT'', 409)] code of
                Some s \<Rightarrow> s
              | None \<Rightarrow> 500),
           body = Failure code message\<rparr>
      | other \<Rightarrow>
          \<lparr>status = 500, body = Failure ''INTERNAL_ERROR'' ''Internal server error''\<rparr>)"

section \<open>ComponentsController\<close>

datatype buffer = Bytes string | JsonText json

definition JSON_parse :: "buffer \<Rightarrow> thrown + json" where
  "JSON_parse data = (case data of JsonText j \<Rightarrow> Inr j | Bytes s \<Rightarrow> Inl SyntaxError)"

definition property_of :: "json option \<Rightarrow> string \<Rightarrow> thrown + json option" where
  "property_of object key =
     (case object of
        None \<Rightarrow> Inl TypeError
      | Some JNull \<Rightarrow> Inl TypeError
      | Some (JObj kvs) \<Rightarrow> Inr (map_of kvs key)
      | Some other \<Rightarrow> Inr None)"

fun code_unit_less :: "string \<Rightarrow> string \<Rightarrow> bool" where
  "code_unit_less [] [] = False"
| "code_unit_less [] (b # bs) = True"
| "code_unit_less (a # as) [] = False"
| "code_unit_less (a # as) (b # bs) =
     ((of_char a :: nat) < of_char b \<or> (a = b \<and> code_unit_less as bs))"

fun sort_insert :: "string \<Rightarrow> string list \<Rightarrow> string list" where
  "sort_insert x [] = [x]"
| "sort_insert x (y # ys) =
     (if code_unit_less x y then x # y # ys else y # sort_insert x ys)"

definition js_sort :: "string list \<Rightarrow> string list" where
  "js_sort xs = foldr sort_insert xs []"

definition slice :: "'a list \<Rightarrow> int \<Rightarrow> int \<Rightarrow> 'a list" where
  "slice xs start end =
     (let len = int (length xs);
          k = (if start < 0 then max (len + start) 0 else min start len);
          final = (if end < 0 then max (len + end) 0 else min end len)
      in take (nat (final - k)) (drop (nat k) xs))"

definition manifest_path :: "string \<Rightarrow> string \<Rightarrow> string" where
  "manifest_path name version = ''components/'' @ name @ ''/'' @ version @ ''/component.json''"

definition defined_fields :: "(string \<times> json option) list \<Rightarrow> json" where
  "defined_fields kvs =
     JObj (concat (map (\<lambda>(k, v). case v of None \<Rightarrow> [] | Some x \<Rightarrow> [(k, x)]) kvs))"

definition summary :: "json \<Rightarrow> thrown + json" where
  "summary component =
     (case property_of (Some component) ''metadata'' of
        Inl error \<Rightarrow> Inl error
      | Inr metadata \<Rightarrow>
          (case property_of metadata ''name'' of
             Inl error \<Rightarrow> Inl error
           | Inr name \<Rightarrow>
               (case (property_of metadata ''version'', property_of metadata ''description'',
                      property_of metadata ''tags'') of
                  (Inr version, Inr description, Inr tags) \<Rightarrow>
                    Inr (defined_fields
                      [(''name'', name), (''latestVersion'', version),
                       (''description'', description), (''tags'', tags)])
                | other \<Rightarrow> Inl TypeError)))"

fun latest_of_each ::
  "string \<Rightarrow> buffer filesystem \<Rightarrow> string list \<Rightarrow> thrown + json list" where
  "latest_of_each rootDir fs [] = Inr []"
| "latest_of_each rootDir fs (dir # dirs) =
     (case storage_list rootDir fs (''components/'' @ dir) of
        Inl e \<Rightarrow> Inl (SystemError e)
      | Inr versions \<Rightarrow>
          if length versions > 0 then
            (let latestVersion = last (js_sort versions) in
             case storage_read rootDir fs
                    (''components/'' @ dir @ ''/'' @ latestVersion @ ''/component.json'') of
               Inl e \<Rightarrow> Inl (SystemError e)
             | Inr componentData \<Rightarrow>
                 (case JSON_parse componentData of
                    Inl error \<Rightarrow> Inl error
                  | Inr component \<Rightarrow>
                      (case summary component of
                         Inl error \<Rightarrow> Inl error
                       | Inr entry \<Rightarrow>
                           (case latest_of_each rootDir fs dirs of
                              Inl error \<Rightarrow> Inl error
                            | Inr components \<Rightarrow> Inr (entry # components)))))
          else latest_of_each rootDir fs dirs)"

definition or_default :: "int option \<Rightarrow> int \<Rightarrow> int" where
  "or_default parsed d = (case parsed of None \<Rightarrow> d | Some n \<Rightarrow> if n = 0 then d else n)"

definition list_components ::
  "string \<Rightarrow> buffer filesystem \<Rightarrow> int option \<Rightarrow> int option \<Rightarrow> response" where
  "list_components rootDir fs queryPage queryPageSize =
     (let page = or_default queryPage 1;
          pageSize = or_default queryPageSize 10 in
      case storage_list rootDir fs ''components'' of
        Inl e \<Rightarrow> errorHandler (SystemError e)
      | Inr componentDirs \<Rightarrow>
          (case latest_of_each rootDir fs componentDirs of
             Inl error \<Rightarrow> errorHandler error
           | Inr components \<Rightarrow>
               (let start = (page - 1) * pageSize;
                    paginatedComponents = slice components start (start + pageSize) in
                case ComponentListResponseSchema
                       (JObj [(''components'', JArr paginatedComponents),
                              (''total'', JNum (int (length components))),
                              (''page'', JNum page),
                              (''pageSize'', JNum pageSize)]) of
                  None \<Rightarrow> errorHandler ZodError
                | Some response \<Rightarrow> \<lparr>status = 200, body = Payload response\<rparr>)))"

definition metadata_string :: "json \<Rightarrow> string \<Rightarrow> string" where
  "metadata_string component key =
     (case component of
        JObj kvs \<Rightarrow>
          (case map_of kvs ''metadata'' of
             Some (JObj meta) \<Rightarrow> (case map_of meta key of Some (JStr s) \<Rightarrow> s | _ \<Rightarrow> ''undefined'')
           | _ \<Rightarrow> ''undefined'')
      | _ \<Rightarrow> ''undefined'')"

text \<open>
  \<open>create\<close>, served alone: nothing else touches the file system between its awaits.
\<close>

definition create :: "string \<Rightarrow> buffer filesystem \<Rightarrow> json \<Rightarrow> response \<times> buffer filesystem" where
  "create rootDir fs requestBody =
     (case ComponentSchema requestBody of
        None \<Rightarrow> (errorHandler ZodError, fs)
      | Some component \<Rightarrow>
          (let name = metadata_string component ''name'';
               version = metadata_string component ''version'';
               existing =
                 (case storage_read rootDir fs (manifest_path name version) of
                    Inr found \<Rightarrow> Inl (APIError ''VERSION_CONFLICT'' ''Version already exists'')
                  | Inl e \<Rightarrow> Inl (SystemError e)) :: thrown + unit
           in case (case existing of
                      Inl error \<Rightarrow>
                        if error_code error \<noteq> Some ''ENOENT'' then Inl error else Inr ()
                    | Inr u \<Rightarrow> Inr ()) of
                Inl error \<Rightarrow> (errorHandler error, fs)
              | Inr u \<Rightarrow>
                  (case storage_write rootDir fs (manifest_path name version) (JsonText component) of
                     (Inl e, fs') \<Rightarrow> (errorHandler (SystemError e), fs')
                   | (Inr u', fs') \<Rightarrow> (\<lparr>status = 201, body = Payload component\<rparr>, fs'))))"

text \<open>
  \<open>create\<close>, await by await. The handler awaits \<open>storage.read\<close> and then
  \<open>storage.write\<close>, which itself awaits \<open>mkdir\<close> and then \<open>writeFile\<close>; while it waits,
  the handlers of other requests run. A request is where its handler stands: not yet
  run, or waiting for one of the three calls with the parsed component in hand, or
  answered. A step runs the awaited call on the file system as it is then, and the
  handler up to its next await.
\<close>

datatype pending =
    Received json
  | AwaitingRead json
  | AwaitingMkdir json
  | AwaitingWriteFile json
  | Answered response

definition create_step ::
  "string \<Rightarrow> pending \<Rightarrow> buffer filesystem \<Rightarrow> pending \<times> buffer filesystem" where
  "create_step rootDir request fs =
     (case request of
        Received requestBody \<Rightarrow>
          (case ComponentSchema requestBody of
             None \<Rightarrow> (Answered (errorHandler ZodError), fs)
           | Some component \<Rightarrow> (AwaitingRead component, fs))
      | AwaitingRead component \<Rightarrow>
          (let name = metadata_string component ''name'';
               version = metadata_string component ''version'';
               existing =
                 (case storage_read rootDir fs (manifest_path name version) of
                    Inr found \<Rightarrow> Inl (APIError ''VERSION_CONFLICT'' ''Version already exists'')
                  | Inl e \<Rightarrow> Inl (SystemError e)) :: thrown + unit
           in case (case existing of
                      Inl error \<Rightarrow>
                        if error_code error \<noteq> Some ''ENOENT'' then Inl error else Inr ()
                    | Inr u \<Rightarrow> Inr ()) of
                Inl error \<Rightarrow> (Answered (errorHandler error), fs)
              | Inr u \<Rightarrow> (AwaitingMkdir component, fs))
      | AwaitingMkdir component \<Rightarrow>
          (let name = metadata_string component ''name'';
               version = metadata_string component ''version'';
               fullPath = join rootDir (manifest_path name version)
           in case fs_mkdir fs (join fullPath ''..'') of
                (Inl e, fs1) \<Rightarrow> (Answered (errorHandler (SystemError e)), fs1)
              | (Inr u, fs1) \<Rightarrow> (AwaitingWriteFile component, fs1))
      | AwaitingWriteFile component \<Rightarrow>
          (let name = metadata_string component ''name'';
               version = metadata_string component ''version'';
               fullPath = join rootDir (manifest_path name version)
           in case fs_writeFile fs fullPath (JsonText component) of
                Inl e \<Rightarrow> (Answered (errorHandler (SystemError e)), fs)
              | Inr fs2 \<Rightarrow> (Answered \<lparr>status = 201, body = Payload component\<rparr>, fs2))
      | Answered res \<Rightarrow> (Answered res, fs))"

text \<open>
  Two requests served at the same time: the turns say whose awaited call completes
  next.
\<close>

datatype turn = First | Second

fun interleave ::
  "string \<Rightarrow> turn list \<Rightarrow> pending \<times> pending \<times> buffer filesystem \<Rightarrow>
   pending \<times> pending \<times> buffer filesystem" where
  "interleave rootDir [] state = state"
| "interleave rootDir (First # turns) (a, b, fs) =
     (case create_step rootDir a fs of (a', fs') \<Rightarrow> interleave rootDir turns (a', b, fs'))"
| "interleave rootDir (Second # turns) (a, b, fs) =
     (case create_step rootDir b fs of (b', fs') \<Rightarrow> interleave rootDir turns (a, b', fs'))"

definition getDetails :: "string \<Rightarrow> buffer filesystem \<Rightarrow> string \<Rightarrow> string \<Rightarrow> response" where
  "getDetails rootDir fs now name =
     (case storage_list rootDir fs (''components/'' @ name) of
        Inl e \<Rightarrow> errorHandler (SystemError e)
      | Inr versions \<Rightarrow>
          if length versions = 0 then
            errorHandler (APIError ''COMPONENT_NOT_FOUND'' ''Component not found'')
          else
            (let sorted = js_sort versions;
                 latestVersion = last sorted;
                 remaining = butlast sorted in
             case storage_read rootDir fs (manifest_path name latestVersion) of
               Inl e \<Rightarrow> errorHandler (SystemError e)
             | Inr componentData \<Rightarrow>
                 (case JSON_parse componentData of
                    Inl error \<Rightarrow> errorHandler error
                  | Inr component \<Rightarrow>
                      (let versionDetails =
                             map (\<lambda>version.
                                    JObj [(''version'', JStr version),
                                          (''createdAt'', JStr now),
                                          (''updatedAt'', JStr now)]) remaining in
                       case ComponentDetailResponseSchema
                              (JObj [(''component'', component),
                                     (''versions'', JArr versionDetails)]) of
                         None \<Rightarrow> errorHandler ZodError
                       | Some response \<Rightarrow> \<lparr>status = 200, body = Payload response\<rparr>))))"

definition getVersion :: "string \<Rightarrow> buffer filesystem \<Rightarrow> string \<Rightarrow> string \<Rightarrow> response" where
  "getVersion rootDir fs name version =
     (case (case storage_read rootDir fs (manifest_path name version) of
              Inl e \<Rightarrow> Inl (SystemError e)
            | Inr componentData \<Rightarrow>
                (case JSON_parse componentData of
                   Inl error \<Rightarrow> Inl error
                 | Inr parsed \<Rightarrow>
                     (case ComponentSchema parsed of
                        None \<Rightarrow> Inl ZodError
                      | Some component \<Rightarrow> Inr \<lparr>status = 200, body = Payload component\<rparr>))) of
        Inl error \<Rightarrow>
          if error_code error = Some ''ENOENT''
          then errorHandler (APIError ''VERSION_NOT_FOUND'' ''Version not found'')
          else errorHandler error
      | Inr res \<Rightarrow> res)"

section \<open>The command line\<close>

text \<open>
  \<open>CLI.run\<close> awaits commander's \<open>parseAsync\<close> and hands whatever it rejects with to
  \<open>handleError\<close>. What \<open>parseAsync\<close> does is the outcome given here: it resolves, or it
  rejects with a value that is an \<open>Error\<close> (carrying a message) or anything else. The
  process records the calls of \<open>console.error\<close> made through \<open>logger.error\<close> (the tag
  \<open>error\<close> and the message) and the code of the first \<open>process.exit\<close>; a process that
  was never told to exit ends with code 0.
\<close>

datatype thrown_value = ErrorObject string | NotAnError

datatype outcome = Resolved | Rejected thrown_value

record process =
  console_error :: "(string \<times> string) list"
  exited :: "nat option"

definition logger_error :: "string \<Rightarrow> process \<Rightarrow> process" where
  "logger_error message p =
     (if exited p = None then p\<lparr>console_error := console_error p @ [(''error'', message)]\<rparr>
      else p)"

definition process_exit :: "nat \<Rightarrow> process \<Rightarrow> process" where
  "process_exit code p = (if exited p = None then p\<lparr>exited := Some code\<rparr> else p)"

definition handleError :: "thrown_value \<Rightarrow> process \<Rightarrow> process" where
  "handleError error p =
     process_exit 1
       (case error of
          ErrorObject message \<Rightarrow> logger_error message p
        | NotAnError \<Rightarrow> logger_error ''An unknown error occurred'' p)"

definition run :: "outcome \<Rightarrow> process \<Rightarrow> process" where
  "run parsed p = (case parsed of Resolved \<Rightarrow> p | Rejected error \<Rightarrow> handleError error p)"

definition exit_code :: "process \<Rightarrow> nat" where
  "exit_code p = (case exited p of None \<Rightarrow> 0 | Some code \<Rightarrow> code)"

section \<open>Notions used to state the properties\<close>

text \<open>
  A proper name is what a directory entry can be called: not empty, not \<open>.\<close> or \<open>..\<close>, no
  slash, no null byte. A directory is well formed when its names are proper, at most \<open>NAME_MAX\<close>
  bytes long, and no name occurs twice, here and below.
\<close>

definition proper_name :: "string \<Rightarrow> bool" where
  "proper_name s =
     (s \<noteq> [] \<and> s \<noteq> ''.'' \<and> s \<noteq> ''..'' \<and> CHR ''/'' \<notin> set s \<and> CHR 0x00 \<notin> set s)"

definition pushable :: "string \<Rightarrow> bool" where
  "pushable s = (s \<noteq> [] \<and> s \<noteq> ''.'')"

fun wf_node :: "'b node \<Rightarrow> bool"
  and wf_entries :: "'b entries \<Rightarrow> bool" where
  "wf_node (File c) = True"
| "wf_node (Dir es) = wf_entries es"
| "wf_entries ENil = True"
| "wf_entries (ECons k n es) =
     (proper_name k \<and> length k \<le> NAME_MAX \<and> find_entry es k = None \<and>
      wf_node n \<and> wf_entries es)"

text \<open>
  What the storage finds at a path relative to its root, when it hands the joined path
  to the file system; and what a path reaches below a node.
\<close>

definition node_at :: "string \<Rightarrow> 'b filesystem \<Rightarrow> string \<Rightarrow> errno + 'b node" where
  "node_at rootDir fs path =
     (case path_error (join rootDir path) of
        Some e \<Rightarrow> Inl e
      | None \<Rightarrow> lookup (tree fs) (resolve (cwd fs) (join rootDir path)))"

definition reaches :: "'b node \<Rightarrow> string list \<Rightarrow> bool" where
  "reaches n ss = (case lookup n ss of Inl e \<Rightarrow> False | Inr m \<Rightarrow> True)"

text \<open>
  \<open>readdir\<close> gets to an entry through the directories above it, joining one name after
  the other to the path it was given; the entry is within reach when each of these
  paths is shorter than \<open>PATH_MAX\<close>.
\<close>

fun within_reach :: "string \<Rightarrow> string list \<Rightarrow> bool" where
  "within_reach path [] = True"
| "within_reach path [s] = True"
| "within_reach path (s # t # ts) =
     (length (join path s) < PATH_MAX \<and> within_reach (join path s) (t # ts))"

text \<open>
  The entries \<open>readdir\<close> reports, each as the names from the listed directory down to
  it, in the order of the report.
\<close>

fun level_segs :: "'b entries \<Rightarrow> string list list" where
  "level_segs ENil = []"
| "level_segs (ECons k n es) = [k] # level_segs es"

fun queue_segs :: "string \<Rightarrow> 'b entries \<Rightarrow> string list list" where
  "queue_segs path ENil = []"
| "queue_segs path (ECons k (File c) es) = queue_segs path es"
| "queue_segs path (ECons k (Dir sub) es) =
     queue_segs path es @
     (if length (join path k) < PATH_MAX then
        map ((#) k) (level_segs sub @ queue_segs (join path k) sub)
      else [])"

definition walk :: "string \<Rightarrow> 'b entries \<Rightarrow> string list list" where
  "walk path es = level_segs es @ queue_segs path es"

text \<open>
  A prefix is in normal form when every segment is a proper name; it stays below the
  root when what is left of its segments after normalising are proper names (an
  absolute prefix is taken from the root directory too, unless that is the empty
  string).
\<close>

definition normal_path :: "string \<Rightarrow> bool" where
  "normal_path p = list_all proper_name (split_sep p)"

definition below_root :: "string \<Rightarrow> string \<Rightarrow> bool" where
  "below_root rootDir prefix =
     (list_all proper_name (normalizeString True (split_sep prefix)) \<and>
      (isAbsolute prefix \<longrightarrow> rootDir \<noteq> []))"

text \<open>
  What \<open>mkdir\<close> of the parent directory and then \<open>writeFile\<close> end with, on a tree and
  the segments of the path. When \<open>write\<close> can succeed: the joined path and its parent
  are accepted (no null byte, short enough), the path does not end in a slash, every
  name on it is at
  most \<open>NAME_MAX\<close> bytes long, and the path is free (nothing is there and nothing but
  directories stands on the way) or a regular file is there.
\<close>

definition mkdir_then_write :: "'b node \<Rightarrow> string list \<Rightarrow> 'b \<Rightarrow> errno + unit" where
  "mkdir_then_write n ss c =
     (case mkdir_p n (butlast ss) of
        (Inl e, n') \<Rightarrow> Inl e
      | (Inr u, n') \<Rightarrow> (case write_at n' ss c of Inl e \<Rightarrow> Inl e | Inr n'' \<Rightarrow> Inr ()))"

definition paths_fit :: "string \<Rightarrow> string \<Rightarrow> bool" where
  "paths_fit rootDir path =
     (path_error (join rootDir path) = None \<and>
      path_error (join (join rootDir path) ''..'') = None)"

definition writable :: "string \<Rightarrow> 'b filesystem \<Rightarrow> string \<Rightarrow> bool" where
  "writable rootDir fs path =
     (paths_fit rootDir path \<and>
      \<not> trailingSeparator (join rootDir path) \<and>
      resolve (cwd fs) (join rootDir path) \<noteq> [] \<and>
      list_all (\<lambda>s. length s \<le> NAME_MAX) (resolve (cwd fs) (join rootDir path)) \<and>
      (case node_at rootDir fs path of
         Inl e \<Rightarrow> e = ENOENT
       | Inr (File c) \<Rightarrow> True
       | Inr (Dir es) \<Rightarrow> False))"

text \<open>A schema is idempotent when what it returns passes it again unchanged.\<close>

definition idempotent :: "zschema \<Rightarrow> bool" where
  "idempotent s = (\<forall>j v. s j = Some v \<longrightarrow> s v = Some v)"

text \<open>The error responses of \<open>errorHandler\<close>.\<close>

definition not_found :: "string \<Rightarrow> string \<Rightarrow> response" where
  "not_found code message = \<lparr>status = 404, body = Failure code message\<rparr>"

definition version_conflict :: response where
  "version_conflict = \<lparr>status = 409, body = Failure ''VERSION_CONFLICT'' ''Version already exists''\<rparr>"

definition validation_error :: response where
  "validation_error = \<lparr>status = 400, body = Failure ''VALIDATION_ERROR'' ''Invalid request data''\<rparr>"

definition internal_error :: response where
  "internal_error = \<lparr>status = 500, body = Failure ''INTERNAL_ERROR'' ''Internal server error''\<rparr>"

section \<open>Examples\<close>

definition registry_root :: string where
  "registry_root = ''/srv/registry''"

definition empty_fs :: "buffer filesystem" where
  "empty_fs = \<lparr>tree = Dir ENil, cwd = ''/''\<rparr>"

definition test_button :: json where
  "test_button = JObj
     [(''metadata'', JObj [(''name'', JStr ''test-button''), (''version'', JStr ''1.0.0''),
        (''description'', JStr ''A test button component'')]),
      (''files'', JArr [JObj [(''path'', JStr ''index.ts''),
        (''content'', JStr ''export const Button = () => {}''), (''type'', JStr ''typescript'')]])]"

definition published_fs :: "buffer filesystem" where
  "published_fs = snd (create registry_root empty_fs test_button)"

definition listing_fs :: "buffer filesystem" where
  "listing_fs =
     snd (storage_write registry_root
       (snd (storage_write registry_root
         (snd (storage_write registry_root empty_fs
            ''components/button/index.ts'' (Bytes ''test content'')))
         ''components/button/style.css'' (Bytes ''test content'')))
       ''components/input/index.ts'' (Bytes ''test content''))"

definition button_entries :: "buffer entries" where
  "button_entries =
     ECons ''index.ts'' (File (Bytes ''test content''))
       (ECons ''style.css'' (File (Bytes ''test content'')) ENil)"

definition components_entries :: "buffer entries" where
  "components_entries =
     ECons ''button'' (Dir button_entries)
       (ECons ''input'' (Dir (ECons ''index.ts'' (File (Bytes ''test content'')) ENil)) ENil)"

definition long_name :: string where
  "long_name = replicate 256 CHR ''a''"

definition null_name :: string where
  "null_name = [CHR ''a'', CHR 0x00, CHR ''b'']"

definition republished_button :: json where
  "republished_button = JObj
     [(''metadata'', JObj [(''name'', JStr ''test-button''), (''version'', JStr ''1.0.0''),
        (''description'', JStr ''Another button'')]),
      (''files'', JArr [JObj [(''path'', JStr ''index.ts''),
        (''content'', JStr ''export const Button = null''), (''type'', JStr ''typescript'')]])]"

definition earlier_lines :: process where
  "earlier_lines = \<lparr>console_error = [(''error'', ''first'')], exited = None\<rparr>"

definition extra_key_manifest :: json where
  "extra_key_manifest = JObj
     [(''metadata'', JObj [(''name'', JStr ''card''), (''version'', JStr ''2.0.0'')]),
      (''files'', JArr []),
      (''internal'', JBool True)]"

definition card_manifest :: json where
  "card_manifest = JObj
     [(''metadata'', JObj [(''name'', JStr ''card''), (''version'', JStr ''2.0.0'')]),
      (''files'', JArr [])]"

definition card_fs :: "buffer filesystem" where
  "card_fs = snd (storage_write registry_root empty_fs
     ''components/card/2.0.0/component.json'' (JsonText extra_key_manifest))"

definition broken_fs :: "buffer filesystem" where
  "broken_fs =
     snd (storage_write registry_root
       (snd (storage_write registry_root empty_fs
          ''components/card/1.0.0/component.json'' (JsonText (JObj [(''files'', JArr [])]))))
       ''components/card/1.1.0/component.json'' (Bytes ''not json''))"

section \<open>The dependency resolver\<close>

text \<open>
  Modelled from the spec: the Dependency Resolver (spec 4.2) over the Registry Client's
  \<open>fetchManifest\<close> (spec 4.1) and the data model of spec 3. The repository declares the
  component manager (\<open>IComponentManager\<close>) and tests it, but has no resolver among its
  source files. A \<open>ComponentRef\<close> is a name and a version.
\<close>

type_synonym ComponentRef = "string \<times> string"

text \<open>
  Modelled from the spec: \<open>ComponentManifest\<close> (spec 3); \<open>dependencies.components\<close> and
  \<open>dependencies.packages\<close> are the fields \<open>components\<close> and \<open>packages\<close>.
\<close>

record ComponentManifest =
  ref :: ComponentRef
  files :: "(string \<times> string \<times> string) list"
  components :: "ComponentRef list"
  packages :: "(string \<times> string) list"
  metadata :: string

text \<open>Modelled from the spec: the failure kinds of spec 4.1, 4.2 and 7 that resolving can end in.\<close>

datatype failure =
    NotFound ComponentRef
  | Unreachable
  | InvalidManifest ComponentRef
  | CyclicDependency "string list"
  | IncompatiblePackageVersions string string string

text \<open>
  Modelled from the spec: \<open>ResolutionNode\<close> (spec 3), kept in an arena and naming its
  children by their refs (spec 9).
\<close>

record ResolutionNode =
  node_ref :: ComponentRef
  manifest :: ComponentManifest
  children :: "ComponentRef list"
  depth :: nat

text \<open>
  Modelled from the spec: the bookkeeping of the traversal (spec 4.2): the nodes resolved
  so far, the \<open>resolved\<close> map from a name to the ref first chosen for it, and the
  conflict warnings.
\<close>

record traversal =
  arena :: "ResolutionNode list"
  resolved :: "(string \<times> ComponentRef) list"
  warnings :: "(string \<times> ComponentRef \<times> ComponentRef) list"

text \<open>
  Modelled from the spec: resolving one name (spec 4.2). An item is the ref to resolve
  with the \<open>visiting\<close> names of its ancestors on the current path, root first. A name
  already in \<open>visiting\<close> is a cycle, reported as the path from its earlier occurrence back
  to it. Otherwise the manifest is fetched, the node recorded, the first ref resolved for
  a name kept (a later different one is a warning), and each declared component
  dependency becomes an item of the next level.
\<close>

definition visit ::
  "(ComponentRef \<Rightarrow> failure + ComponentManifest) \<Rightarrow> ComponentRef \<times> string list \<Rightarrow> traversal \<Rightarrow>
   failure + ((ComponentRef \<times> string list) list \<times> traversal)" where
  "visit fetchManifest item t =
     (case item of (r, visiting) \<Rightarrow>
        if fst r \<in> set visiting then
          Inl (CyclicDependency (dropWhile (\<lambda>n. n \<noteq> fst r) visiting @ [fst r]))
        else
          (case fetchManifest r of
             Inl f \<Rightarrow> Inl f
           | Inr m \<Rightarrow>
               Inr (map (\<lambda>d. (d, visiting @ [fst r])) (components m),
                    t\<lparr>arena := arena t @
                         [\<lparr>node_ref = r, manifest = m, children = components m,
                           depth = length visiting\<rparr>],
                      resolved :=
                        (case map_of (resolved t) (fst r) of
                           None \<Rightarrow> resolved t @ [(fst r, r)]
                         | Some chosen \<Rightarrow> resolved t),
                      warnings :=
                        (case map_of (resolved t) (fst r) of
                           None \<Rightarrow> warnings t
                         | Some chosen \<Rightarrow>
                             if chosen \<noteq> r then warnings t @ [(fst r, chosen, r)]
                             else warnings t)\<rparr>)))"

text \<open>Modelled from the spec: one level of the breadth-first traversal, in order (spec 4.2, 5).\<close>

fun visit_level ::
  "(ComponentRef \<Rightarrow> failure + ComponentManifest) \<Rightarrow> (ComponentRef \<times> string list) list \<Rightarrow>
   traversal \<Rightarrow> failure + ((ComponentRef \<times> string list) list \<times> traversal)" where
  "visit_level fetchManifest [] t = Inr ([], t)"
| "visit_level fetchManifest (item # items) t =
     (case visit fetchManifest item t of
        Inl f \<Rightarrow> Inl f
      | Inr (cs, t') \<Rightarrow>
          (case visit_level fetchManifest items t' of
             Inl f \<Rightarrow> Inl f
           | Inr (next, t'') \<Rightarrow> Inr (cs @ next, t'')))"

text \<open>
  Modelled from the spec: the breadth-first traversal (spec 4.2), level after level;
  \<open>fuel\<close> bounds the number of levels, and running out of it is \<open>None\<close>.
\<close>

fun traverse ::
  "(ComponentRef \<Rightarrow> failure + ComponentManifest) \<Rightarrow> nat \<Rightarrow> (ComponentRef \<times> string list) list \<Rightarrow>
   traversal \<Rightarrow> (failure + traversal) option" where
  "traverse fetchManifest fuel [] t = Some (Inr t)"
| "traverse fetchManifest 0 (item # items) t = None"
| "traverse fetchManifest (Suc fuel) (item # items) t =
     (case visit_level fetchManifest (item # items) t of
        Inl f \<Rightarrow> Some (Inl f)
      | Inr (next, t') \<Rightarrow> traverse fetchManifest fuel next t')"

text \<open>
  Modelled from the spec: package dependency merging (spec 4.2). How two version ranges
  combine is \<open>combine\<close>, \<open>None\<close> when they are provably disjoint; each package keeps its
  merged range and the component that first asked for it.
\<close>

fun merge_package ::
  "(string \<Rightarrow> string \<Rightarrow> string option) \<Rightarrow> string \<Rightarrow> string \<times> string \<Rightarrow>
   (string \<times> string \<times> string) list \<Rightarrow> failure + (string \<times> string \<times> string) list" where
  "merge_package combine requester (package, wanted) [] = Inr [(package, wanted, requester)]"
| "merge_package combine requester (package, wanted) ((p, chosen, first) # merged) =
     (if p = package then
        (case combine chosen wanted of
           None \<Rightarrow> Inl (IncompatiblePackageVersions package first requester)
         | Some both \<Rightarrow> Inr ((p, both, first) # merged))
      else
        (case merge_package combine requester (package, wanted) merged of
           Inl f \<Rightarrow> Inl f
         | Inr merged' \<Rightarrow> Inr ((p, chosen, first) # merged')))"

text \<open>
  Modelled from the spec: merging the package requests of all resolved nodes, in the
  order of the traversal (spec 4.2); the first incompatible pair ends the merge.
\<close>

fun merge_packages ::
  "(string \<Rightarrow> string \<Rightarrow> string option) \<Rightarrow> (string \<times> string \<times> string) list \<Rightarrow>
   (string \<times> string \<times> string) list \<Rightarrow> failure + (string \<times> string \<times> string) list" where
  "merge_packages combine [] merged = Inr merged"
| "merge_packages combine ((requester, request) # requests) merged =
     (case merge_package combine requester request merged of
        Inl f \<Rightarrow> Inl f
      | Inr merged' \<Rightarrow> merge_packages combine requests merged')"

text \<open>Modelled from the spec: \<open>ResolutionResult\<close> (spec 3), with the root's arena.\<close>

record ResolutionResult =
  root :: ComponentRef
  nodes :: "ResolutionNode list"
  flattenedComponents :: "(string \<times> ComponentRef) list"
  npmPackages :: "(string \<times> string) list"
  conflicts :: "(string \<times> ComponentRef \<times> ComponentRef) list"

text \<open>Modelled from the spec: \<open>resolve\<close> (spec 4.2): traverse from the root, then merge.\<close>

definition resolve_dependencies ::
  "(ComponentRef \<Rightarrow> failure + ComponentManifest) \<Rightarrow> (string \<Rightarrow> string \<Rightarrow> string option) \<Rightarrow>
   nat \<Rightarrow> ComponentRef \<Rightarrow> (failure + ResolutionResult) option" where
  "resolve_dependencies fetchManifest combine fuel rootRef =
     (case traverse fetchManifest fuel [(rootRef, [])]
             \<lparr>arena = [], resolved = [], warnings = []\<rparr> of
        None \<Rightarrow> None
      | Some (Inl f) \<Rightarrow> Some (Inl f)
      | Some (Inr t) \<Rightarrow>
          Some (case merge_packages combine
                       (concat (map (\<lambda>n. map (Pair (fst (node_ref n))) (packages (manifest n)))
                                  (arena t))) [] of
                  Inl f \<Rightarrow> Inl f
                | Inr merged \<Rightarrow>
                    Inr \<lparr>root = rootRef, nodes = arena t, flattenedComponents = resolved t,
                         npmPackages = map (\<lambda>(p, merged_range, first). (p, merged_range)) merged,
                         conflicts = warnings t\<rparr>))"

text \<open>
  The dependency graph of a registry: \<open>trail\<close> holds of a ref reached from the root along
  declared component dependencies, with the names passed on the way; \<open>depends\<close> is one
  step between names; a registry is complete when every declared dependency of a
  manifest it serves is served too.
\<close>

inductive trail ::
  "(ComponentRef \<Rightarrow> failure + ComponentManifest) \<Rightarrow> ComponentRef \<Rightarrow> string list \<Rightarrow>
   ComponentRef \<Rightarrow> bool"
  for fetchManifest rootRef where
  start: "trail fetchManifest rootRef [] rootRef"
| step: "trail fetchManifest rootRef visiting r \<Longrightarrow> fetchManifest r = Inr m \<Longrightarrow>
         d \<in> set (components m) \<Longrightarrow> trail fetchManifest rootRef (visiting @ [fst r]) d"

definition depends :: "(ComponentRef \<Rightarrow> failure + ComponentManifest) \<Rightarrow> string \<Rightarrow> string \<Rightarrow> bool" where
  "depends fetchManifest a b =
     (\<exists>r m d. fst r = a \<and> fetchManifest r = Inr m \<and> d \<in> set (components m) \<and> fst d = b)"

definition complete :: "(ComponentRef \<Rightarrow> failure + ComponentManifest) \<Rightarrow> bool" where
  "complete fetchManifest =
     (\<forall>r m. fetchManifest r = Inr m \<longrightarrow>
        (\<forall>d\<in>set (components m). \<exists>m'. fetchManifest d = Inr m'))"

definition expand ::
  "(ComponentRef \<Rightarrow> failure + ComponentManifest) \<Rightarrow> (ComponentRef \<times> string list) list \<Rightarrow>
   (ComponentRef \<times> string list) list" where
  "expand fetchManifest level =
     concat (map (\<lambda>(r, visiting).
        case fetchManifest r of
          Inl f \<Rightarrow> []
        | Inr m \<Rightarrow> map (\<lambda>d. (d, visiting @ [fst r])) (components m)) level)"

text \<open>The spec's example: A depends on B, B on C, C on A.\<close>

definition abc_registry :: "ComponentRef \<Rightarrow> failure + ComponentManifest" where
  "abc_registry r =
     (if r = (''A'', ''1.0.0'') then
        Inr \<lparr>ref = r, files = [], components = [(''B'', ''1.0.0'')], packages = [],
             metadata = []\<rparr>
      else if r = (''B'', ''1.0.0'') then
        Inr \<lparr>ref = r, files = [], components = [(''C'', ''1.0.0'')], packages = [],
             metadata = []\<rparr>
      else if r = (''C'', ''1.0.0'') then
        Inr \<lparr>ref = r, files = [], components = [(''A'', ''1.0.0'')], packages = [],
             metadata = []\<rparr>
      else Inl (NotFound r))"

definition same_range :: "string \<Rightarrow> string \<Rightarrow> string option" where
  "same_range a b = (if a = b then Some a else None)"

section \<open>The installation orchestrator\<close>

text \<open>
  Modelled from the spec: \<open>StagedFile\<close> (spec 3), an output file with the temporary path
  it is first written to. The repository has no installation orchestrator among its
  source files.
\<close>

record StagedFile =
  targetPath :: string
  stagedContent :: string
  tempPath :: string

text \<open>Modelled from the spec: the installation failures of spec 7.\<close>

datatype install_failure = FileConflict "string list" | PromotionFailure string

text \<open>
  Modelled from the spec: writing the staged files to their temporary paths (spec 4.4,
  step 1). The disk maps a path to the content of the file there.
\<close>

fun stage :: "StagedFile list \<Rightarrow> (string \<Rightarrow> string option) \<Rightarrow> (string \<Rightarrow> string option)" where
  "stage [] disk = disk"
| "stage (s # staged) disk = stage staged (disk(tempPath s \<mapsto> stagedContent s))"

text \<open>
  Modelled from the spec: rollback (spec 4.4, step 3). The journal holds, latest first,
  the target of each promoted file with what was there before; each is restored, or
  deleted when nothing was there.
\<close>

fun rollback :: "(string \<times> string option) list \<Rightarrow> (string \<Rightarrow> string option) \<Rightarrow> (string \<Rightarrow> string option)" where
  "rollback [] disk = disk"
| "rollback ((target, prior) # journal) disk = rollback journal (disk(target := prior))"

text \<open>Modelled from the spec: deleting the temporary files not promoted (spec 4.4, step 3).\<close>

fun discard :: "StagedFile list \<Rightarrow> (string \<Rightarrow> string option) \<Rightarrow> (string \<Rightarrow> string option)" where
  "discard [] disk = disk"
| "discard (s # staged) disk = discard staged (disk(tempPath s := None))"

text \<open>
  Modelled from the spec: promotion (spec 4.4, step 3), one rename after the other;
  \<open>renames\<close> tells of a staged file whether its rename succeeds. A rename moves the
  temporary file over the target. The first rename that fails ends the transaction: the
  promoted files are rolled back and the remaining temporary files deleted.
\<close>

fun promote ::
  "(StagedFile \<Rightarrow> bool) \<Rightarrow> StagedFile list \<Rightarrow> (string \<times> string option) list \<Rightarrow>
   (string \<Rightarrow> string option) \<Rightarrow> (install_failure + unit) \<times> (string \<Rightarrow> string option)" where
  "promote renames [] journal disk = (Inr (), disk)"
| "promote renames (s # staged) journal disk =
     (if renames s then
        promote renames staged ((targetPath s, disk (targetPath s)) # journal)
          (disk(targetPath s := disk (tempPath s), tempPath s := None))
      else
        (Inl (PromotionFailure (targetPath s)),
         discard (s # staged) (rollback journal disk)))"

text \<open>
  Modelled from the spec: \<open>install\<close> (spec 4.4) from the staged files on: the conflict
  check before anything is written (step 2), staging, promotion.
\<close>

definition install ::
  "(StagedFile \<Rightarrow> bool) \<Rightarrow> bool \<Rightarrow> StagedFile list \<Rightarrow> (string \<Rightarrow> string option) \<Rightarrow>
   (install_failure + unit) \<times> (string \<Rightarrow> string option)" where
  "install renames force staged disk =
     (let conflicting = filter (\<lambda>p. disk p \<noteq> None) (map targetPath staged) in
      if conflicting \<noteq> [] \<and> \<not> force then (Inl (FileConflict conflicting), disk)
      else promote renames staged [] (stage staged disk))"

text \<open>
  The temporary paths of a transaction are fresh when they are pairwise different, none
  is a target, and nothing is on the disk at any of them.
\<close>

definition fresh_temps :: "StagedFile list \<Rightarrow> (string \<Rightarrow> string option) \<Rightarrow> bool" where
  "fresh_temps staged disk =
     (distinct (map tempPath staged) \<and>
      list_all (\<lambda>s. disk (tempPath s) = None \<and> tempPath s \<notin> set (map targetPath staged)) staged)"

text \<open>The spec's example: five files, two of them over existing ones; the third rename fails.\<close>

definition five_files :: "StagedFile list" where
  "five_files =
     [\<lparr>targetPath = ''ui/button.tsx'', stagedContent = ''button v2'', tempPath = ''ui/button.tsx.tmp''\<rparr>,
      \<lparr>targetPath = ''ui/button.css'', stagedContent = ''css v2'', tempPath = ''ui/button.css.tmp''\<rparr>,
      \<lparr>targetPath = ''ui/index.ts'', stagedContent = ''index'', tempPath = ''ui/index.ts.tmp''\<rparr>,
      \<lparr>targetPath = ''ui/types.ts'', stagedContent = ''types'', tempPath = ''ui/types.ts.tmp''\<rparr>,
      \<lparr>targetPath = ''ui/README.md'', stagedContent = ''readme'', tempPath = ''ui/README.md.tmp''\<rparr>]"

definition project_disk :: "string \<Rightarrow> string option" where
  "project_disk = [''ui/button.tsx'' \<mapsto> ''button v1'', ''package.json'' \<mapsto> ''{}'']"

definition third_fails :: "StagedFile \<Rightarrow> bool" where
  "third_fails s = (targetPath s \<noteq> ''ui/index.ts'')"

section \<open>Paths: segments and normal forms\<close>

lemma split_sep_nonempty: "split_sep s \<noteq> []"
  by (induction s) (auto split: list.splits)

lemma split_sep_slash_free: "x \<in> set (split_sep s) \<Longrightarrow> CHR ''/'' \<notin> set x"
  by (induction s arbitrary: x) (auto split: list.splits if_splits)

lemma split_sep_append: "split_sep (s @ CHR ''/'' # t) = split_sep s @ split_sep t"
  by (induction s) (auto split: list.splits simp: split_sep_nonempty)

lemma split_sep_no_slash: "CHR ''/'' \<notin> set s \<Longrightarrow> split_sep s = [s]"
  by (induction s) auto

lemma split_join_sep:
  "xs \<noteq> [] \<Longrightarrow> \<forall>x\<in>set xs. CHR ''/'' \<notin> set x \<Longrightarrow> split_sep (join_sep xs) = xs"
proof (induction xs rule: join_sep.induct)
  case 1
  then show ?case by simp
next
  case (2 s)
  then show ?case by (simp add: split_sep_no_slash)
next
  case (3 s t ts)
  then show ?case by (simp add: split_sep_append split_sep_no_slash)
qed

lemma join_sep_append:
  "xs \<noteq> [] \<Longrightarrow> ys \<noteq> [] \<Longrightarrow> join_sep (xs @ ys) = join_sep xs @ CHR ''/'' # join_sep ys"
proof (induction xs rule: join_sep.induct)
  case 1
  then show ?case by simp
next
  case (2 s)
  then show ?case by (cases ys) auto
next
  case (3 s t ts)
  then show ?case by simp
qed

lemma join_sep_empty: "join_sep xs = [] \<Longrightarrow> \<forall>x\<in>set xs. x \<noteq> [] \<Longrightarrow> xs = []"
  by (induction xs rule: join_sep.induct) auto

lemma norm_step_skip: "x = [] \<or> x = ''.'' \<Longrightarrow> norm_step a x st = st"
  by (auto simp: norm_step_def)

lemma norm_step_push: "x \<noteq> [] \<Longrightarrow> x \<noteq> ''.'' \<Longrightarrow> x \<noteq> ''..'' \<Longrightarrow> norm_step a x st = x # st"
  by (simp add: norm_step_def)

lemma norm_step_pop: "r \<noteq> ''..'' \<Longrightarrow> norm_step a ''..'' (r # rs) = rs"
  by (simp add: norm_step_def)

lemma norm_step_keep:
  "st = [] \<or> (\<exists>rs. st = ''..'' # rs) \<Longrightarrow>
   norm_step a ''..'' st = (if a then ''..'' # st else st)"
  by (auto simp: norm_step_def)

lemma norm_step_cases:
  obtains (skip) "norm_step a x st = st"
  | (push) "norm_step a x st = x # st" "x \<noteq> []" "x \<noteq> ''.''" "x \<noteq> ''..''"
  | (pop) r where "x = ''..''" "st = r # norm_step a x st" "r \<noteq> ''..''"
  | (keep) "x = ''..''" "norm_step a x st = x # st" "a" "st = [] \<or> (\<exists>rs. st = ''..'' # rs)"
proof (cases "x = [] \<or> x = ''.''")
  case True
  then show ?thesis using skip norm_step_skip by blast
next
  case ns: False
  show ?thesis
  proof (cases "x = ''..''")
    case False
    with ns show ?thesis using push norm_step_push by blast
  next
    case dd: True
    show ?thesis
    proof (cases st)
      case Nil
      show ?thesis
      proof (cases a)
        case True
        with Nil dd show ?thesis using keep [OF dd] by (simp add: norm_step_keep)
      next
        case False
        with Nil dd show ?thesis using skip by (simp add: norm_step_keep)
      qed
    next
      case (Cons r rs)
      show ?thesis
      proof (cases "r = ''..''")
        case False
        with Cons dd show ?thesis using pop [of r] by (simp add: norm_step_pop)
      next
        case True
        show ?thesis
        proof (cases a)
          case a: True
          with Cons dd True show ?thesis using keep [OF dd] by (simp add: norm_step_keep)
        next
          case False
          with Cons dd True show ?thesis using skip by (simp add: norm_step_keep)
        qed
      qed
    qed
  qed
qed

lemma norm_step_subset: "set (norm_step a x st) \<subseteq> insert x (set st)"
  by (cases a x st rule: norm_step_cases) (auto, metis list.set_intros(2))

lemma norm_step_pushable:
  "\<forall>r\<in>set st. pushable r \<Longrightarrow> \<forall>r\<in>set (norm_step a x st). pushable r"
proof (cases a x st rule: norm_step_cases)
  case skip
  assume "\<forall>r\<in>set st. pushable r"
  then show ?thesis using skip by simp
next
  case push
  assume "\<forall>r\<in>set st. pushable r"
  then show ?thesis using push by (simp add: pushable_def)
next
  case (pop r)
  assume "\<forall>r\<in>set st. pushable r"
  then show ?thesis using pop by (metis list.set_intros(2))
next
  case keep
  assume "\<forall>r\<in>set st. pushable r"
  then show ?thesis using keep by (simp add: pushable_def)
qed

lemma fold_norm_step_pushable:
  "\<forall>r\<in>set st. pushable r \<Longrightarrow> \<forall>r\<in>set (fold (norm_step a) xs st). pushable r"
proof (induction xs arbitrary: st)
  case Nil
  then show ?case by simp
next
  case (Cons x xs)
  have "\<forall>r\<in>set (norm_step a x st). pushable r"
    using Cons.prems by (rule norm_step_pushable)
  then show ?case using Cons.IH by simp
qed

lemma fold_norm_step_subset: "set (fold (norm_step a) xs st) \<subseteq> set xs \<union> set st"
proof (induction xs arbitrary: st)
  case Nil
  then show ?case by simp
next
  case (Cons x xs)
  have "set (fold (norm_step a) xs (norm_step a x st)) \<subseteq> set xs \<union> set (norm_step a x st)"
    by (rule Cons.IH)
  also have "\<dots> \<subseteq> set xs \<union> insert x (set st)"
    using norm_step_subset [of a x st] by auto
  finally show ?case by auto
qed

lemma norm_step_no_dotdot:
  "''..'' \<notin> set st \<Longrightarrow> ''..'' \<notin> set (norm_step False x st)"
proof (cases False x st rule: norm_step_cases)
  case skip
  assume "''..'' \<notin> set st"
  then show ?thesis using skip by simp
next
  case push
  assume "''..'' \<notin> set st"
  then show ?thesis using push by simp
next
  case (pop r)
  assume "''..'' \<notin> set st"
  then show ?thesis using pop by (metis list.set_intros(2))
next
  case keep
  then show ?thesis by simp
qed

lemma fold_norm_step_no_dotdot:
  "''..'' \<notin> set st \<Longrightarrow> ''..'' \<notin> set (fold (norm_step False) xs st)"
proof (induction xs arbitrary: st)
  case Nil
  then show ?case by simp
next
  case (Cons x xs)
  have "''..'' \<notin> set (norm_step False x st)"
    using Cons.prems by (rule norm_step_no_dotdot)
  then show ?case using Cons.IH by simp
qed

lemma norm_step_proper: "proper_name x \<Longrightarrow> norm_step a x st = x # st"
  by (simp add: proper_name_def norm_step_push)

lemma fold_norm_step_proper:
  "\<forall>x\<in>set xs. proper_name x \<Longrightarrow> fold (norm_step a) xs st = rev xs @ st"
  by (induction xs arbitrary: st) (simp_all add: norm_step_proper)

text \<open>Resolving a normalised path reaches the node the path itself reaches.\<close>

lemma norm_step_rel:
  assumes "\<forall>r\<in>set st. pushable r"
  shows "fold (norm_step False) (rev (norm_step True x st)) base =
         norm_step False x (fold (norm_step False) (rev st) base)"
proof (cases "x = [] \<or> x = ''.''")
  case True
  then show ?thesis by (simp add: norm_step_skip)
next
  case skip: False
  show ?thesis
  proof (cases "x = ''..''")
    case False
    with skip show ?thesis by (simp add: norm_step_push)
  next
    case dd: True
    show ?thesis
    proof (cases st)
      case Nil
      with dd show ?thesis by (simp add: norm_step_keep)
    next
      case (Cons r rs)
      show ?thesis
      proof (cases "r = ''..''")
        case True
        with dd Cons show ?thesis by (simp add: norm_step_keep)
      next
        case False
        have "pushable r" using assms Cons by simp
        then have "norm_step False r (fold (norm_step False) (rev rs) base) =
                   r # fold (norm_step False) (rev rs) base"
          using False by (simp add: pushable_def norm_step_push)
        with dd Cons False show ?thesis by (simp add: norm_step_pop)
      qed
    qed
  qed
qed

lemma fold_norm_step_rel:
  "\<forall>r\<in>set st. pushable r \<Longrightarrow>
   fold (norm_step False) (rev (fold (norm_step True) xs st)) base =
   fold (norm_step False) xs (fold (norm_step False) (rev st) base)"
proof (induction xs arbitrary: st)
  case Nil
  then show ?case by simp
next
  case (Cons x xs)
  have ok: "\<forall>r\<in>set (norm_step True x st). pushable r"
    using Cons.prems by (rule norm_step_pushable)
  have "fold (norm_step False) (rev (fold (norm_step True) (x # xs) st)) base =
        fold (norm_step False) xs (fold (norm_step False) (rev (norm_step True x st)) base)"
    using Cons.IH [OF ok] by simp
  also have "\<dots> = fold (norm_step False) xs
        (norm_step False x (fold (norm_step False) (rev st) base))"
    using norm_step_rel [OF Cons.prems] by simp
  finally show ?case by simp
qed

lemma fold_norm_step_id:
  "\<forall>r\<in>set st. pushable r \<Longrightarrow> ''..'' \<notin> set st \<Longrightarrow>
   fold (norm_step False) (rev st) base = st @ base"
proof (induction st)
  case Nil
  then show ?case by simp
next
  case (Cons r st)
  from Cons.prems have "r \<noteq> []" "r \<noteq> ''.''" "r \<noteq> ''..''"
    by (auto simp: pushable_def)
  then have "norm_step False r (st @ base) = r # st @ base"
    by (rule norm_step_push)
  with Cons show ?case by simp
qed

lemma normalizeString_abs_idem:
  "normalizeString False (normalizeString False xs) = normalizeString False xs"
proof -
  let ?st = "fold (norm_step False) xs []"
  have "\<forall>r\<in>set ?st. pushable r" by (rule fold_norm_step_pushable) simp
  moreover have "''..'' \<notin> set ?st" by (rule fold_norm_step_no_dotdot) simp
  ultimately have "fold (norm_step False) (rev ?st) [] = ?st @ []"
    by (rule fold_norm_step_id)
  then show ?thesis by (simp add: normalizeString_def)
qed

lemma normalizeString_rel:
  "fold (norm_step False) (normalizeString True xs) base = fold (norm_step False) xs base"
  using fold_norm_step_rel [of "[]" xs base] by (simp add: normalizeString_def)

lemma normalizeString_subset: "set (normalizeString a xs) \<subseteq> set xs"
  using fold_norm_step_subset [of a xs "[]"] by (simp add: normalizeString_def)

lemma normalizeString_slash_free:
  "\<forall>x\<in>set xs. CHR ''/'' \<notin> set x \<Longrightarrow> \<forall>r\<in>set (normalizeString a xs). CHR ''/'' \<notin> set r"
  using normalizeString_subset [of a xs] by auto

lemma normalizeString_nonempty_segs:
  "\<forall>r\<in>set (normalizeString a xs). r \<noteq> []"
  using fold_norm_step_pushable [of "[]" a xs] by (auto simp: normalizeString_def pushable_def)


lemma normalize_nonempty: "normalize_path s \<noteq> []"
  by (auto simp: normalize_path_def Let_def)

lemma join_nonempty: "join a b \<noteq> []"
  by (simp add: join_def normalize_nonempty)

lemma isAbsolute_append: "s \<noteq> [] \<Longrightarrow> isAbsolute (s @ t) = isAbsolute s"
  by (cases s) (simp_all add: isAbsolute_def)

lemma isAbsolute_normalize: "s \<noteq> [] \<Longrightarrow> isAbsolute (normalize_path s) = isAbsolute s"
proof -
  assume ne: "s \<noteq> []"
  let ?p = "join_sep (normalizeString (\<not> isAbsolute s) (split_sep s))"
  show ?thesis
  proof (cases "isAbsolute s")
    case True
    then show ?thesis using ne by (auto simp: normalize_path_def Let_def isAbsolute_def)
  next
    case False
    show ?thesis
    proof (cases "?p = []")
      case True
      with False ne show ?thesis by (auto simp: normalize_path_def Let_def isAbsolute_def)
    next
      case pne: False
      let ?ys = "normalizeString True (split_sep s)"
      have sf: "\<forall>r\<in>set ?ys. CHR ''/'' \<notin> set r"
        by (rule normalizeString_slash_free) (auto dest: split_sep_slash_free)
      have ne': "\<forall>r\<in>set ?ys. r \<noteq> []" by (rule normalizeString_nonempty_segs)
      from pne False have "?ys \<noteq> []" by auto
      then obtain y ys where ys: "?ys = y # ys" by (cases ?ys) auto
      with sf ne' have "y \<noteq> []" "CHR ''/'' \<notin> set y" by auto
      then obtain c cs where "y = c # cs" "c \<noteq> CHR ''/''" by (cases y) auto
      then have "\<not> isAbsolute (join_sep ?ys)"
        using ys by (cases ys) (auto simp: isAbsolute_def)
      then have "\<not> isAbsolute (join_sep ?ys @ t)" for t
        using pne False by (simp add: isAbsolute_append)
      with False ne pne show ?thesis
        by (auto simp: normalize_path_def Let_def)
    qed
  qed
qed

lemma resolve_fold:
  "resolve wd p =
     rev (fold (norm_step False) (split_sep p)
            (if isAbsolute p then [] else fold (norm_step False) (split_sep wd) []))"
  by (simp add: resolve_def normalizeString_def split_sep_append)

lemma fold_split_normalize:
  assumes "s \<noteq> []"
  shows "fold (norm_step False) (split_sep (normalize_path s)) base =
         fold (norm_step False) (normalizeString (\<not> isAbsolute s) (split_sep s)) base"
proof -
  let ?ys = "normalizeString (\<not> isAbsolute s) (split_sep s)"
  let ?p = "join_sep ?ys"
  have sf: "\<forall>r\<in>set ?ys. CHR ''/'' \<notin> set r"
    by (rule normalizeString_slash_free) (auto dest: split_sep_slash_free)
  have ne: "\<forall>r\<in>set ?ys. r \<noteq> []" by (rule normalizeString_nonempty_segs)
  show ?thesis
  proof (cases "?p = []")
    case True
    then have "?ys = []" using ne by (rule join_sep_empty)
    moreover have "normalize_path s = ''/'' \<or> normalize_path s = ''./'' \<or> normalize_path s = ''.''"
      using True assms by (simp add: normalize_path_def Let_def)
    then have "fold (norm_step False) (split_sep (normalize_path s)) base = base"
      by (auto simp: norm_step_skip)
    ultimately show ?thesis by simp
  next
    case False
    then have "?ys \<noteq> []" by auto
    then have sp: "split_sep ?p = ?ys"
      using sf by (rule split_join_sep)
    have sp2: "split_sep (?p @ ''/'') = ?ys @ [[]]"
      using split_sep_append [of ?p "[]"] sp by simp
    have sp3: "split_sep (CHR ''/'' # t) = [] # split_sep t" for t
      by simp
    have n: "normalize_path s = (if isAbsolute s then ''/'' else []) @ ?p @
          (if trailingSeparator s then ''/'' else [])"
      using False assms by (simp add: normalize_path_def Let_def)
    have "fold (norm_step False) (split_sep ((if isAbsolute s then ''/'' else []) @ ?p @
          (if trailingSeparator s then ''/'' else []))) base = fold (norm_step False) ?ys base"
    proof (cases "isAbsolute s"; cases "trailingSeparator s")
      assume "isAbsolute s" "trailingSeparator s"
      then show ?thesis using sp2 sp3 [of "?p @ ''/''"] by (simp add: norm_step_skip)
    next
      assume "isAbsolute s" "\<not> trailingSeparator s"
      then show ?thesis using sp sp3 [of "?p"] by (simp add: norm_step_skip)
    next
      assume "\<not> isAbsolute s" "trailingSeparator s"
      then show ?thesis using sp2 by (simp add: norm_step_skip)
    next
      assume "\<not> isAbsolute s" "\<not> trailingSeparator s"
      then show ?thesis using sp by simp
    qed
    then show ?thesis using n by simp
  qed
qed

lemma resolve_normalize: "resolve wd (normalize_path s) = resolve wd s"
proof (cases "s = []")
  case True
  then show ?thesis
    by (simp add: resolve_fold normalize_path_def isAbsolute_def norm_step_skip)
next
  case False
  let ?base = "if isAbsolute s then [] else fold (norm_step False) (split_sep wd) []"
  have "fold (norm_step False) (split_sep (normalize_path s)) ?base =
        fold (norm_step False) (normalizeString (\<not> isAbsolute s) (split_sep s)) ?base"
    using False by (rule fold_split_normalize)
  also have "\<dots> = fold (norm_step False) (split_sep s) ?base"
  proof (cases "isAbsolute s")
    case True
    then show ?thesis
      using normalizeString_abs_idem [of "split_sep s"]
      by (simp add: normalizeString_def)
  next
    case False
    then show ?thesis by (simp add: normalizeString_rel)
  qed
  finally show ?thesis
    using False by (simp add: resolve_fold isAbsolute_normalize)
qed

lemma resolve_no_dotdot: "''..'' \<notin> set (resolve wd p)"
proof -
  have "''..'' \<notin> set (fold (norm_step False) (split_sep wd) [])"
    by (rule fold_norm_step_no_dotdot) simp
  then have "''..'' \<notin> set (fold (norm_step False) (split_sep p)
            (if isAbsolute p then [] else fold (norm_step False) (split_sep wd) []))"
    by (intro fold_norm_step_no_dotdot) simp
  then show ?thesis by (simp add: resolve_fold)
qed

lemma resolve_parent:
  assumes "s \<noteq> []"
  shows "resolve wd (join s ''..'') = butlast (resolve wd s)"
proof -
  let ?base = "if isAbsolute s then [] else fold (norm_step False) (split_sep wd) []"
  let ?st = "fold (norm_step False) (split_sep s) ?base"
  have st: "resolve wd s = rev ?st" by (simp add: resolve_fold)
  have "join s ''..'' = normalize_path (s @ ''/..'')"
    using assms by (simp add: join_def)
  then have "resolve wd (join s ''..'') = resolve wd (s @ ''/..'')"
    by (simp add: resolve_normalize)
  also have "\<dots> = rev (norm_step False ''..'' ?st)"
  proof -
    have "split_sep ''..'' = [''..'']" by simp
    then have "split_sep (s @ ''/..'') = split_sep s @ [''..'']"
      using split_sep_append [of s "''..''"] by simp
    moreover have "isAbsolute (s @ ''/..'') = isAbsolute s"
      using assms by (rule isAbsolute_append)
    ultimately show ?thesis by (simp add: resolve_fold)
  qed
  also have "norm_step False ''..'' ?st = tl ?st"
  proof (cases ?st)
    case Nil
    then show ?thesis by (simp add: norm_step_keep)
  next
    case (Cons r rs)
    have "''..'' \<notin> set ?st" using resolve_no_dotdot [of wd s] st by simp
    then have "r \<noteq> ''..''" using Cons by auto
    then show ?thesis using Cons by (simp add: norm_step_pop)
  qed
  also have "rev (tl ?st) = butlast (rev ?st)"
    by (cases ?st) simp_all
  finally show ?thesis using st by simp
qed

lemma join_sep_Cons_char: "join_sep ((c # s) # ss) = c # join_sep (s # ss)"
  by (cases ss) simp_all

lemma join_sep_split: "join_sep (split_sep s) = s"
proof (induction s)
  case Nil
  then show ?case by simp
next
  case (Cons c cs)
  obtain t ts where sp: "split_sep cs = t # ts"
    using split_sep_nonempty [of cs] by (cases "split_sep cs") auto
  show ?case using Cons sp by (simp add: join_sep_Cons_char)
qed

lemma join_sep_nonempty: "xs \<noteq> [] \<Longrightarrow> \<forall>x\<in>set xs. x \<noteq> [] \<Longrightarrow> join_sep xs \<noteq> []"
  by (induction xs rule: join_sep.induct) auto

lemma isAbsolute_join_sep:
  "x \<noteq> [] \<Longrightarrow> isAbsolute (join_sep (x # xs)) = isAbsolute x"
  by (cases xs; cases x) (simp_all add: isAbsolute_def)

lemma last_join_sep:
  "xs \<noteq> [] \<Longrightarrow> \<forall>x\<in>set xs. x \<noteq> [] \<Longrightarrow> last (join_sep xs) = last (last xs)"
proof (induction xs rule: join_sep.induct)
  case 1
  then show ?case by simp
next
  case (2 s)
  then show ?case by simp
next
  case (3 s t ts)
  then have "join_sep (t # ts) \<noteq> []" by (intro join_sep_nonempty) auto
  then show ?case using 3 by simp
qed

lemma proper_not_absolute: "proper_name x \<Longrightarrow> \<not> isAbsolute x"
  by (cases x) (auto simp: proper_name_def isAbsolute_def)

lemma proper_last: "proper_name x \<Longrightarrow> last x \<noteq> CHR ''/''"
  by (auto simp: proper_name_def) (metis last_in_set)

lemma normal_form_facts:
  assumes "xs \<noteq> []" "\<forall>x\<in>set xs. proper_name x"
  shows "join_sep xs \<noteq> []" "\<not> isAbsolute (join_sep xs)" "\<not> trailingSeparator (join_sep xs)"
    "split_sep (join_sep xs) = xs"
proof -
  have ne: "\<forall>x\<in>set xs. x \<noteq> []" using assms(2) by (auto simp: proper_name_def)
  show 1: "join_sep xs \<noteq> []" using assms(1) ne by (rule join_sep_nonempty)
  obtain y ys where xs: "xs = y # ys" using assms(1) by (cases xs) auto
  then have "proper_name y" using assms(2) by simp
  then show "\<not> isAbsolute (join_sep xs)"
    using xs isAbsolute_join_sep [of y ys] proper_not_absolute [of y]
    by (simp add: proper_name_def)
  have "proper_name (last xs)" using assms by simp
  then have "last (last xs) \<noteq> CHR ''/''" by (rule proper_last)
  then show "\<not> trailingSeparator (join_sep xs)"
    using last_join_sep [OF assms(1) ne] by (simp add: trailingSeparator_def)
  show "split_sep (join_sep xs) = xs"
    using assms by (intro split_join_sep) (auto simp: proper_name_def)
qed

lemma normalizeString_proper:
  "\<forall>x\<in>set xs. proper_name x \<Longrightarrow> normalizeString a xs = xs"
  by (simp add: normalizeString_def fold_norm_step_proper)

lemma normalize_normal_form:
  assumes "xs \<noteq> []" "\<forall>x\<in>set xs. proper_name x"
  shows "normalize_path (join_sep xs) = join_sep xs"
  using normal_form_facts [OF assms] normalizeString_proper [OF assms(2)]
  by (simp add: normalize_path_def Let_def)

lemma relative_segs_append: "relative_segs as (as @ xs) = xs"
  by (induction as) simp_all

lemma resolve_join_normal:
  assumes "xs \<noteq> []" "\<forall>x\<in>set xs. proper_name x"
  shows "resolve wd (join r (join_sep xs)) = resolve wd r @ xs"
proof -
  note nf = normal_form_facts [OF assms]
  show ?thesis
  proof (cases "r = []")
    case True
    then have "join r (join_sep xs) = normalize_path (join_sep xs)"
      using nf(1) by (simp add: join_def)
    then have "resolve wd (join r (join_sep xs)) = resolve wd (join_sep xs)"
      by (simp add: resolve_normalize)
    then show ?thesis using True nf assms(2)
      by (simp add: resolve_fold fold_norm_step_proper isAbsolute_def norm_step_skip)
  next
    case False
    then have "join r (join_sep xs) = normalize_path (r @ CHR ''/'' # join_sep xs)"
      using nf(1) by (simp add: join_def)
    then have "resolve wd (join r (join_sep xs)) = resolve wd (r @ CHR ''/'' # join_sep xs)"
      by (simp add: resolve_normalize)
    moreover have "isAbsolute (r @ CHR ''/'' # join_sep xs) = isAbsolute r"
      using False by (rule isAbsolute_append)
    ultimately show ?thesis using nf(4) assms(2)
      by (simp add: resolve_fold split_sep_append fold_norm_step_proper)
  qed
qed

lemma relative_join_normal:
  assumes "xs \<noteq> []" "\<forall>x\<in>set xs. proper_name x"
  shows "relative wd r (join r (join_sep xs)) = join_sep xs"
  by (simp add: relative_def resolve_join_normal [OF assms] relative_segs_append)

lemma resolve_join_name:
  assumes "proper_name k"
  shows "resolve wd (join path k) = resolve wd path @ [k]"
  using resolve_join_normal [of "[k]" wd path] assms by simp

text \<open>A path that never climbs above its start normalises the same, absolute or not.\<close>

lemma norm_step_dotdot_stays:
  "''..'' \<in> set st \<Longrightarrow> ''..'' \<in> set (norm_step True x st)"
proof (cases True x st rule: norm_step_cases)
  case skip
  assume "''..'' \<in> set st"
  then show ?thesis using skip by simp
next
  case push
  assume "''..'' \<in> set st"
  then show ?thesis using push by simp
next
  case (pop r)
  assume "''..'' \<in> set st"
  then have "''..'' \<in> set (r # norm_step True x st)" using pop(2) by simp
  then show ?thesis using pop(3) by auto
next
  case keep
  then show ?thesis by simp
qed

lemma fold_norm_step_dotdot_stays:
  "''..'' \<in> set st \<Longrightarrow> ''..'' \<in> set (fold (norm_step True) xs st)"
proof (induction xs arbitrary: st)
  case Nil
  then show ?case by simp
next
  case (Cons x xs)
  have "''..'' \<in> set (norm_step True x st)"
    using Cons.prems by (rule norm_step_dotdot_stays)
  then show ?case using Cons.IH by simp
qed

lemma norm_step_agree:
  "''..'' \<notin> set (norm_step True x st) \<Longrightarrow> norm_step False x st = norm_step True x st"
  by (auto simp: norm_step_def split: list.splits if_splits)

lemma fold_norm_step_agree:
  "''..'' \<notin> set (fold (norm_step True) xs st) \<Longrightarrow>
   fold (norm_step False) xs st = fold (norm_step True) xs st"
proof (induction xs arbitrary: st)
  case Nil
  then show ?case by simp
next
  case (Cons x xs)
  have rest: "''..'' \<notin> set (fold (norm_step True) xs (norm_step True x st))"
    using Cons.prems by simp
  then have "''..'' \<notin> set (norm_step True x st)"
    using fold_norm_step_dotdot_stays by blast
  then have "norm_step False x st = norm_step True x st" by (rule norm_step_agree)
  moreover have "fold (norm_step False) xs (norm_step True x st) =
      fold (norm_step True) xs (norm_step True x st)"
    using rest by (rule Cons.IH)
  ultimately show ?case by simp
qed

lemma normalizeString_no_climb:
  "''..'' \<notin> set (normalizeString True xs) \<Longrightarrow>
   normalizeString False xs = normalizeString True xs"
  using fold_norm_step_agree [of xs "[]"] by (simp add: normalizeString_def)

lemma normalizeString_append_proper:
  "\<forall>x\<in>set ss. proper_name x \<Longrightarrow>
   normalizeString a (xs @ ss) = normalizeString a xs @ ss"
  by (simp add: normalizeString_def fold_norm_step_proper)

text \<open>
  Below a prefix that stays below the root, an entry is found at the segments of the
  root, of the prefix and of the entry, one after the other.
\<close>

lemma fold_split_join_below:
  assumes "list_all proper_name (normalizeString True (split_sep prefix))"
    "ss \<noteq> []" "\<forall>x\<in>set ss. proper_name x"
  shows "fold (norm_step False) (split_sep (join prefix (join_sep ss))) st =
         rev (normalizeString True (split_sep prefix) @ ss) @ st"
proof -
  let ?ps = "normalizeString True (split_sep prefix)"
  let ?e = "join_sep ss"
  note nf = normal_form_facts [OF assms(2,3)]
  have ps: "\<forall>x\<in>set ?ps. proper_name x"
    using assms(1) by (simp add: list_all_iff)
  have push: "fold (norm_step False) (?ps @ ss) st = rev (?ps @ ss) @ st"
    using ps assms(3) by (intro fold_norm_step_proper) auto
  show ?thesis
  proof (cases "prefix = []")
    case True
    then have empty: "?ps = []" by (simp add: normalizeString_def norm_step_skip)
    have "join prefix ?e = normalize_path ?e"
      using True nf(1) by (simp add: join_def)
    then have "fold (norm_step False) (split_sep (join prefix ?e)) st =
        fold (norm_step False) (normalizeString (\<not> isAbsolute ?e) (split_sep ?e)) st"
      using nf(1) by (simp add: fold_split_normalize)
    also have "normalizeString (\<not> isAbsolute ?e) (split_sep ?e) = ss"
      using nf(4) assms(3) by (simp add: normalizeString_proper)
    finally show ?thesis using push empty by simp
  next
    case False
    let ?z = "prefix @ CHR ''/'' # ?e"
    have z: "?z \<noteq> []" by simp
    have "join prefix ?e = normalize_path ?z"
      using False nf(1) by (simp add: join_def)
    then have "fold (norm_step False) (split_sep (join prefix ?e)) st =
        fold (norm_step False) (normalizeString (\<not> isAbsolute ?z) (split_sep ?z)) st"
      using fold_split_normalize [OF z, of st] by simp
    also have "normalizeString (\<not> isAbsolute ?z) (split_sep ?z) = ?ps @ ss"
    proof -
      have sp: "split_sep ?z = split_sep prefix @ ss"
        using nf(4) by (simp add: split_sep_append)
      have "normalizeString b (split_sep prefix) = ?ps" for b
      proof (cases b)
        case True
        then show ?thesis by simp
      next
        case False
        have "''..'' \<notin> set ?ps" using ps by (auto simp: proper_name_def)
        then show ?thesis using False by (simp add: normalizeString_no_climb)
      qed
      then show ?thesis using sp assms(3) by (simp add: normalizeString_append_proper)
    qed
    finally show ?thesis using push by simp
  qed
qed

lemma isAbsolute_join:
  "isAbsolute (join a b) = (if a = [] then isAbsolute b else isAbsolute a)"
proof (cases "a = []")
  case True
  then show ?thesis
    by (cases "b = []") (simp_all add: join_def isAbsolute_normalize, simp add: isAbsolute_def)
next
  case False
  then show ?thesis
    by (cases "b = []") (simp_all add: join_def isAbsolute_normalize isAbsolute_append)
qed

lemma resolve_join_below:
  assumes "below_root r prefix" "ss \<noteq> []" "\<forall>x\<in>set ss. proper_name x"
  shows "resolve wd (join r (join prefix (join_sep ss))) =
         resolve wd r @ normalizeString True (split_sep prefix) @ ss"
proof -
  let ?ps = "normalizeString True (split_sep prefix)"
  let ?y = "join prefix (join_sep ss)"
  note nf = normal_form_facts [OF assms(2,3)]
  have ps: "list_all proper_name ?ps" and abs: "isAbsolute prefix \<longrightarrow> r \<noteq> []"
    using assms(1) by (simp_all add: below_root_def)
  have fold: "fold (norm_step False) (split_sep ?y) st = rev (?ps @ ss) @ st" for st
    using ps assms(2,3) by (rule fold_split_join_below)
  have y: "?y \<noteq> []" by (rule join_nonempty)
  show ?thesis
  proof (cases "r = []")
    case True
    then have rel: "\<not> isAbsolute prefix" using abs by simp
    have "\<not> isAbsolute ?y" using rel nf(2) by (simp add: isAbsolute_join)
    moreover have "resolve wd (join r ?y) = resolve wd ?y"
      using True y by (simp add: join_def resolve_normalize)
    ultimately show ?thesis using True fold
      by (simp add: resolve_fold isAbsolute_def norm_step_skip)
  next
    case False
    have "join r ?y = normalize_path (r @ CHR ''/'' # ?y)"
      using False y by (simp add: join_def)
    then have "resolve wd (join r ?y) = resolve wd (r @ CHR ''/'' # ?y)"
      by (simp add: resolve_normalize)
    moreover have "isAbsolute (r @ CHR ''/'' # ?y) = isAbsolute r"
      using False by (rule isAbsolute_append)
    ultimately show ?thesis using fold
      by (simp add: resolve_fold split_sep_append)
  qed
qed

lemma relative_join_below:
  assumes "below_root r prefix" "ss \<noteq> []" "\<forall>x\<in>set ss. proper_name x"
  shows "relative wd r (join r (join prefix (join_sep ss))) =
         join_sep (normalizeString True (split_sep prefix) @ ss)"
  by (simp add: relative_def resolve_join_below [OF assms] relative_segs_append)

lemma normal_path_below_root:
  assumes "normal_path prefix"
  shows "below_root r prefix" "normalizeString True (split_sep prefix) = split_sep prefix"
    "ss \<noteq> [] \<Longrightarrow> join_sep (split_sep prefix @ ss) = prefix @ CHR ''/'' # join_sep ss"
proof -
  have pr: "\<forall>x\<in>set (split_sep prefix). proper_name x"
    using assms by (simp add: normal_path_def list_all_iff)
  show n: "normalizeString True (split_sep prefix) = split_sep prefix"
    using pr by (rule normalizeString_proper)
  have "\<not> isAbsolute (join_sep (split_sep prefix))"
    using split_sep_nonempty pr by (rule normal_form_facts(2))
  then show "below_root r prefix"
    using n pr by (simp add: below_root_def join_sep_split list_all_iff)
  show "ss \<noteq> [] \<Longrightarrow> join_sep (split_sep prefix @ ss) = prefix @ CHR ''/'' # join_sep ss"
    using join_sep_append [OF split_sep_nonempty, of ss prefix] by (simp add: join_sep_split)
qed

section \<open>The file system: reading back, frames, listing\<close>

lemma find_put_entry:
  "find_entry (put_entry es s n) k = (if k = s then Some n else find_entry es k)"
  by (induction es s n rule: put_entry.induct) auto

lemma put_entry_same: "find_entry es s = Some m \<Longrightarrow> put_entry es s m = es"
  by (induction es s m rule: put_entry.induct) (auto split: if_splits)

lemma write_at_Dir_Cons:
  assumes "write_at (Dir es) (s # ss) c = Inr n'"
  obtains (new) "length s \<le> NAME_MAX" "find_entry es s = None" "ss = []"
      "n' = Dir (put_entry es s (File c))"
  | (old) m m' where "length s \<le> NAME_MAX" "find_entry es s = Some m"
      "write_at m ss c = Inr m'" "n' = Dir (put_entry es s m')"
  using assms by (auto split: option.splits if_splits sum.splits)

lemma mkdir_p_Dir_Cons:
  assumes "mkdir_p (Dir es) (s # ss) = (r, n')"
  obtains (long) "NAME_MAX < length s" "r = Inl ENAMETOOLONG" "n' = Dir es"
  | (down) m' where "length s \<le> NAME_MAX"
      "mkdir_p (case find_entry es s of None \<Rightarrow> Dir ENil | Some n \<Rightarrow> n) ss = (r, m')"
      "n' = Dir (put_entry es s m')"
  using assms by (auto split: if_splits prod.splits)

lemma lookup_Dir_Cons:
  assumes "lookup (Dir es) (q # qs) = Inr x"
  obtains m where "length q \<le> NAME_MAX" "find_entry es q = Some m" "lookup m qs = Inr x"
  using assms by (auto split: option.splits if_splits)

lemma lookup_put_same:
  "length s \<le> NAME_MAX \<Longrightarrow> lookup (Dir (put_entry es s m)) (s # ss) = lookup m ss"
  by (simp add: find_put_entry)

lemma lookup_put_other:
  "q \<noteq> s \<Longrightarrow> lookup (Dir (put_entry es s m)) (q # qs) = lookup (Dir es) (q # qs)"
  by (simp add: find_put_entry)

lemma lookup_short: "lookup n ss = Inr x \<Longrightarrow> \<forall>s\<in>set ss. length s \<le> NAME_MAX"
proof (induction ss arbitrary: n)
  case Nil
  then show ?case by simp
next
  case (Cons s ss)
  show ?case
  proof (cases n)
    case (File c)
    then show ?thesis using Cons.prems by simp
  next
    case (Dir es)
    from Cons.prems [unfolded Dir] obtain m where
      m: "length s \<le> NAME_MAX" "lookup m ss = Inr x"
      by (rule lookup_Dir_Cons)
    from m(2) have "\<forall>s\<in>set ss. length s \<le> NAME_MAX" by (rule Cons.IH)
    then show ?thesis using m(1) by simp
  qed
qed

lemma write_at_lookup:
  "write_at n ss c = Inr n' \<Longrightarrow> lookup n' ss = Inr (File c)"
proof (induction ss arbitrary: n n')
  case Nil
  then show ?case by (cases n) auto
next
  case (Cons s ss)
  show ?case
  proof (cases n)
    case (File x)
    then show ?thesis using Cons.prems by simp
  next
    case (Dir es)
    from Cons.prems [unfolded Dir] show ?thesis
    proof (cases rule: write_at_Dir_Cons)
      case new
      then show ?thesis by (simp add: find_put_entry)
    next
      case (old m m')
      from old(3) have "lookup m' ss = Inr (File c)" by (rule Cons.IH)
      then show ?thesis using old(1,4) by (simp add: find_put_entry)
    qed
  qed
qed

lemma mkdir_p_lookup:
  "mkdir_p n ss = (Inr (), n') \<Longrightarrow> \<exists>es. lookup n' ss = Inr (Dir es)"
proof (induction ss arbitrary: n n')
  case Nil
  then show ?case by (cases n) auto
next
  case (Cons s ss)
  show ?case
  proof (cases n)
    case (File x)
    then show ?thesis using Cons.prems by simp
  next
    case (Dir es)
    from Cons.prems [unfolded Dir] show ?thesis
    proof (cases rule: mkdir_p_Dir_Cons)
      case long
      then show ?thesis by simp
    next
      case (down m')
      from down(2) have "\<exists>es. lookup m' ss = Inr (Dir es)" by (rule Cons.IH)
      then show ?thesis using down(1,3) by (simp add: find_put_entry)
    qed
  qed
qed

lemma mkdir_p_errors:
  "mkdir_p n ss = (Inl e, n') \<Longrightarrow> e = ENOTDIR \<or> e = EEXIST \<or> e = ENAMETOOLONG"
proof (induction ss arbitrary: n n')
  case Nil
  then show ?case by (cases n) auto
next
  case (Cons s ss)
  show ?case
  proof (cases n)
    case (File x)
    then show ?thesis using Cons.prems by simp
  next
    case (Dir es)
    from Cons.prems [unfolded Dir] show ?thesis
    proof (cases rule: mkdir_p_Dir_Cons)
      case long
      then show ?thesis by simp
    next
      case (down m')
      from down(2) show ?thesis by (rule Cons.IH)
    qed
  qed
qed

lemma mkdir_p_existing: "lookup n ss = Inr (Dir es) \<Longrightarrow> mkdir_p n ss = (Inr (), n)"
proof (induction ss arbitrary: n)
  case Nil
  then show ?case by simp
next
  case (Cons s ss)
  show ?case
  proof (cases n)
    case (File x)
    then show ?thesis using Cons.prems by simp
  next
    case (Dir es0)
    from Cons.prems [unfolded Dir] obtain m where
      m: "length s \<le> NAME_MAX" "find_entry es0 s = Some m" "lookup m ss = Inr (Dir es)"
      by (rule lookup_Dir_Cons)
    from m(3) have "mkdir_p m ss = (Inr (), m)" by (rule Cons.IH)
    then show ?thesis using Dir m(1,2) by (simp add: put_entry_same)
  qed
qed

lemma lookup_parent:
  "lookup n ss = Inr x \<Longrightarrow> ss \<noteq> [] \<Longrightarrow> \<exists>es. lookup n (butlast ss) = Inr (Dir es)"
proof (induction ss arbitrary: n)
  case Nil
  then show ?case by simp
next
  case (Cons s ss)
  show ?case
  proof (cases n)
    case (File c)
    then show ?thesis using Cons.prems by simp
  next
    case (Dir es0)
    from Cons.prems(1) [unfolded Dir] obtain m where
      m: "length s \<le> NAME_MAX" "find_entry es0 s = Some m" "lookup m ss = Inr x"
      by (rule lookup_Dir_Cons)
    show ?thesis
    proof (cases "ss = []")
      case True
      then show ?thesis using Dir by simp
    next
      case False
      with m(3) have "\<exists>es. lookup m (butlast ss) = Inr (Dir es)" by (rule Cons.IH)
      then show ?thesis using Dir m(1,2) False by simp
    qed
  qed
qed

lemma write_at_dir: "lookup n ss = Inr (Dir es) \<Longrightarrow> write_at n ss c = Inl EISDIR"
proof (induction ss arbitrary: n)
  case Nil
  then show ?case by simp
next
  case (Cons s ss)
  show ?case
  proof (cases n)
    case (File x)
    then show ?thesis using Cons.prems by simp
  next
    case (Dir es0)
    from Cons.prems [unfolded Dir] obtain m where
      m: "length s \<le> NAME_MAX" "find_entry es0 s = Some m" "lookup m ss = Inr (Dir es)"
      by (rule lookup_Dir_Cons)
    from m(3) have "write_at m ss c = Inl EISDIR" by (rule Cons.IH)
    then show ?thesis using Dir m(1,2) by simp
  qed
qed

lemma write_at_Nil_not_enoent: "write_at n [] c \<noteq> Inl ENOENT"
  by (cases n) simp_all

lemma write_at_parent:
  "lookup n (butlast ss) = Inr (Dir es) \<Longrightarrow> write_at n ss c \<noteq> Inl ENOENT"
proof (induction ss arbitrary: n)
  case Nil
  then show ?case by simp
next
  case (Cons s ss)
  show ?case
  proof (cases n)
    case (File x)
    then show ?thesis by simp
  next
    case (Dir es0)
    show ?thesis
    proof (cases "NAME_MAX < length s")
      case True
      then show ?thesis using Dir by simp
    next
      case short: False
      show ?thesis
      proof (cases "find_entry es0 s")
        case None
        show ?thesis
        proof (cases "ss = []")
          case True
          then show ?thesis using Dir None short by simp
        next
          case False
          then show ?thesis using Dir None Cons.prems short by simp
        qed
      next
        case (Some m)
        have "write_at m ss c \<noteq> Inl ENOENT"
        proof (cases "ss = []")
          case True
          then show ?thesis by (simp add: write_at_Nil_not_enoent)
        next
          case False
          then have "lookup m (butlast ss) = Inr (Dir es)"
            using Dir Some Cons.prems short by simp
          then show ?thesis by (rule Cons.IH)
        qed
        then show ?thesis using Dir Some short by (auto split: sum.splits)
      qed
    qed
  qed
qed

lemma write_at_frame:
  "write_at n ss c = Inr n' \<Longrightarrow> lookup n qs = Inr (File d) \<Longrightarrow>
   lookup n' qs = Inr (File (if qs = ss then c else d))"
proof (induction ss arbitrary: n n' qs)
  case Nil
  then show ?case by (cases n; cases qs) auto
next
  case (Cons s ss)
  show ?case
  proof (cases n)
    case (File x)
    then show ?thesis using Cons.prems by simp
  next
    case (Dir es)
    show ?thesis
    proof (cases qs)
      case Nil
      then show ?thesis using Dir Cons.prems by simp
    next
      case qs: (Cons q qs')
      from Cons.prems(2) [unfolded Dir qs] obtain k where
        k: "length q \<le> NAME_MAX" "find_entry es q = Some k" "lookup k qs' = Inr (File d)"
        by (rule lookup_Dir_Cons)
      from Cons.prems(1) [unfolded Dir] show ?thesis
      proof (cases rule: write_at_Dir_Cons)
        case new
        then have "q \<noteq> s" using k by auto
        then show ?thesis using new k qs by (simp add: find_put_entry)
      next
        case (old m m')
        show ?thesis
        proof (cases "q = s")
          case True
          then have "k = m" using k old by simp
          then have "lookup m' qs' = Inr (File (if qs' = ss then c else d))"
            using old(3) k(3) Cons.IH by blast
          then show ?thesis using old(4) k(1) qs True by (simp add: find_put_entry)
        next
          case False
          then show ?thesis using old(4) qs k by (simp add: find_put_entry)
        qed
      qed
    qed
  qed
qed

lemma mkdir_p_frame:
  "mkdir_p n ss = (r, n') \<Longrightarrow> lookup n qs = Inr (File d) \<Longrightarrow> lookup n' qs = Inr (File d)"
proof (induction ss arbitrary: n n' qs)
  case Nil
  then show ?case by (cases n) auto
next
  case (Cons s ss)
  show ?case
  proof (cases n)
    case (File x)
    then show ?thesis using Cons.prems by auto
  next
    case (Dir es)
    show ?thesis
    proof (cases qs)
      case Nil
      then show ?thesis using Dir Cons.prems by simp
    next
      case qs: (Cons q qs')
      from Cons.prems(2) [unfolded Dir qs] obtain k where
        k: "length q \<le> NAME_MAX" "find_entry es q = Some k" "lookup k qs' = Inr (File d)"
        by (rule lookup_Dir_Cons)
      from Cons.prems(1) [unfolded Dir] show ?thesis
      proof (cases rule: mkdir_p_Dir_Cons)
        case long
        then show ?thesis using Cons.prems(2) Dir by simp
      next
        case (down m')
        show ?thesis
        proof (cases "q = s")
          case True
          then have "mkdir_p k ss = (r, m')" using down(2) k by simp
          then have "lookup m' qs' = Inr (File d)" using k(3) by (rule Cons.IH)
          then show ?thesis using down(3) k(1) qs True by (simp add: find_put_entry)
        next
          case False
          then show ?thesis using down(3) qs k by (simp add: find_put_entry)
        qed
      qed
    qed
  qed
qed

text \<open>
  What \<open>mkdir\<close> of the parent and \<open>writeFile\<close> end with is decided by what the path finds
  before.
\<close>

lemma mkdir_then_write_Cons:
  assumes "length s \<le> NAME_MAX" "rest \<noteq> []"
  shows "mkdir_then_write (Dir es) (s # rest) c =
         mkdir_then_write (case find_entry es s of None \<Rightarrow> Dir ENil | Some m \<Rightarrow> m) rest c"
proof -
  let ?child = "case find_entry es s of None \<Rightarrow> Dir ENil | Some m \<Rightarrow> m"
  obtain r m' where down: "mkdir_p ?child (butlast rest) = (r, m')"
    by (cases "mkdir_p ?child (butlast rest)")
  have up: "mkdir_p (Dir es) (butlast (s # rest)) = (r, Dir (put_entry es s m'))"
    using assms down by simp
  show ?thesis
  proof (cases r)
    case (Inl e)
    then show ?thesis using up down by (simp add: mkdir_then_write_def)
  next
    case (Inr u)
    have "write_at (Dir (put_entry es s m')) (s # rest) c =
        (case write_at m' rest c of Inl e \<Rightarrow> Inl e
         | Inr m'' \<Rightarrow> Inr (Dir (put_entry (put_entry es s m') s m'')))"
      using assms(1) by (simp add: find_put_entry)
    then show ?thesis using Inr up down
      by (simp add: mkdir_then_write_def split: sum.splits)
  qed
qed

lemma mkdir_then_write_outcome:
  "mkdir_then_write n ss c =
     (case lookup n ss of
        Inr (File d) \<Rightarrow> if ss = [] then Inl EEXIST else Inr ()
      | Inr (Dir es) \<Rightarrow> Inl EISDIR
      | Inl e \<Rightarrow>
          if e = ENOENT then
            (if \<forall>s\<in>set ss. length s \<le> NAME_MAX then Inr () else Inl ENAMETOOLONG)
          else if e = ENOTDIR then
            (case lookup n (butlast ss) of Inr (File d) \<Rightarrow> Inl EEXIST | _ \<Rightarrow> Inl ENOTDIR)
          else Inl e)"
proof (induction ss arbitrary: n)
  case Nil
  then show ?case by (cases n) (simp_all add: mkdir_then_write_def)
next
  case (Cons s rest)
  show ?case
  proof (cases n)
    case (File x)
    then show ?thesis by (cases rest) (simp_all add: mkdir_then_write_def)
  next
    case (Dir es)
    show ?thesis
    proof (cases "NAME_MAX < length s")
      case True
      then show ?thesis using Dir by (cases rest) (simp_all add: mkdir_then_write_def)
    next
      case short: False
      show ?thesis
      proof (cases rest)
        case Nil
        show ?thesis
        proof (cases "find_entry es s")
          case None
          then show ?thesis using Dir Nil short by (simp add: mkdir_then_write_def)
        next
          case (Some m)
          then show ?thesis using Dir Nil short
            by (cases m) (simp_all add: mkdir_then_write_def)
        qed
      next
        case rest: (Cons t ts)
        let ?child = "case find_entry es s of None \<Rightarrow> Dir ENil | Some m \<Rightarrow> m"
        have step: "mkdir_then_write n (s # rest) c = mkdir_then_write ?child rest c"
          using Dir short rest by (simp add: mkdir_then_write_Cons)
        note ih = Cons.IH [of ?child]
        show ?thesis
        proof (cases "find_entry es s")
          case None
          then show ?thesis
            unfolding step ih using Dir short rest by (simp split: sum.splits)
        next
          case (Some m)
          then show ?thesis
            unfolding step ih using Dir short rest by (simp split: sum.splits node.splits)
        qed
      qed
    qed
  qed
qed

lemma lookup_enotdir_mkdir:
  "lookup n ss = Inl ENOTDIR \<Longrightarrow>
   fst (mkdir_p n (butlast ss)) = Inl ENOTDIR \<or> fst (mkdir_p n (butlast ss)) = Inl EEXIST"
proof (induction ss arbitrary: n)
  case Nil
  then show ?case by simp
next
  case (Cons s rest)
  show ?case
  proof (cases n)
    case (File x)
    then show ?thesis by (cases rest) simp_all
  next
    case (Dir es)
    have short: "length s \<le> NAME_MAX"
      using Cons.prems Dir by (simp split: if_splits)
    then obtain m where m: "find_entry es s = Some m" "lookup m rest = Inl ENOTDIR"
      using Cons.prems Dir by (auto split: option.splits if_splits)
    then have rest: "rest \<noteq> []" by auto
    from m(2) have "fst (mkdir_p m (butlast rest)) = Inl ENOTDIR \<or>
        fst (mkdir_p m (butlast rest)) = Inl EEXIST"
      by (rule Cons.IH)
    then show ?thesis using Dir short m(1) rest by (auto split: prod.splits)
  qed
qed


section \<open>The storage: write and read\<close>

lemma path_error_not_enoent: "p \<noteq> [] \<Longrightarrow> path_error p \<noteq> Some ENOENT"
  by (simp add: path_error_def)

lemma fs_mkdir_cases:
  obtains (refused) e where "path_error p = Some e" "fs_mkdir fs p = (Inl e, fs)"
  | (run) r t where "path_error p = None" "mkdir_p (tree fs) (resolve (cwd fs) p) = (r, t)"
      "fs_mkdir fs p = (r, fs\<lparr>tree := t\<rparr>)"
proof (cases "path_error p")
  case (Some e)
  then show ?thesis using refused by (simp add: fs_mkdir_def)
next
  case None
  obtain r t where "mkdir_p (tree fs) (resolve (cwd fs) p) = (r, t)"
    by (cases "mkdir_p (tree fs) (resolve (cwd fs) p)")
  then show ?thesis using None run by (simp add: fs_mkdir_def)
qed

lemma fs_mkdir_errors:
  assumes "fs_mkdir fs p = (Inl e, fs1)" "p \<noteq> []"
  shows "e \<noteq> ENOENT"
proof (cases rule: fs_mkdir_cases [where fs = fs and p = p])
  case (refused e')
  then show ?thesis using assms path_error_not_enoent [of p] by auto
next
  case (run r t)
  then have "mkdir_p (tree fs) (resolve (cwd fs) p) = (Inl e, t)" using assms(1) by simp
  then have "e = ENOTDIR \<or> e = EEXIST \<or> e = ENAMETOOLONG" by (rule mkdir_p_errors)
  then show ?thesis by auto
qed

lemma fs_writeFile_success:
  assumes "fs_writeFile fs p c = Inr fs2"
  obtains t where "\<not> trailingSeparator p" "path_error p = None"
    "write_at (tree fs) (resolve (cwd fs) p) c = Inr t" "fs2 = fs\<lparr>tree := t\<rparr>"
  using assms
  by (auto simp: fs_writeFile_def Let_def split: option.splits if_splits sum.splits node.splits)

lemma fs_writeFile_not_enoent:
  assumes "lookup (tree fs) (butlast (resolve (cwd fs) p)) = Inr (Dir es)" "p \<noteq> []"
  shows "fs_writeFile fs p c \<noteq> Inl ENOENT"
proof (cases "path_error p")
  case (Some e)
  then show ?thesis using path_error_not_enoent [OF assms(2)] by (auto simp: fs_writeFile_def)
next
  case fits: None
  show ?thesis
  proof (cases "trailingSeparator p")
    case True
    then show ?thesis using assms fits by (simp add: fs_writeFile_def Let_def)
  next
    case False
    have "write_at (tree fs) (resolve (cwd fs) p) c \<noteq> Inl ENOENT"
      using assms(1) by (rule write_at_parent)
    then show ?thesis using False fits
      by (auto simp: fs_writeFile_def Let_def split: sum.splits)
  qed
qed

lemma storage_write_cases:
  obtains (mkdir_fails) e fs1 where "fs_mkdir fs (join (join r p) ''..'') = (Inl e, fs1)"
      "storage_write r fs p c = (Inl e, fs1)"
  | (write_fails) fs1 e where "fs_mkdir fs (join (join r p) ''..'') = (Inr (), fs1)"
      "fs_writeFile fs1 (join r p) c = Inl e" "storage_write r fs p c = (Inl e, fs1)"
  | (ok) fs1 fs2 where "fs_mkdir fs (join (join r p) ''..'') = (Inr (), fs1)"
      "fs_writeFile fs1 (join r p) c = Inr fs2" "storage_write r fs p c = (Inr (), fs2)"
proof -
  obtain res fs1 where m: "fs_mkdir fs (join (join r p) ''..'') = (res, fs1)"
    by (cases "fs_mkdir fs (join (join r p) ''..'')")
  show ?thesis
  proof (cases res)
    case (Inl e)
    then show ?thesis using m mkdir_fails by (simp add: storage_write_def)
  next
    case (Inr u)
    show ?thesis
    proof (cases "fs_writeFile fs1 (join r p) c")
      case (Inl e)
      then show ?thesis using m Inr write_fails by (simp add: storage_write_def)
    next
      case fs2: (Inr fs2)
      then show ?thesis using m Inr ok by (simp add: storage_write_def)
    qed
  qed
qed

lemma fs_mkdir_ok:
  assumes "fs_mkdir fs p = (Inr (), fs1)"
  obtains t where "path_error p = None" "mkdir_p (tree fs) (resolve (cwd fs) p) = (Inr (), t)"
    "fs1 = fs\<lparr>tree := t\<rparr>"
proof (cases rule: fs_mkdir_cases [where fs = fs and p = p])
  case (refused e)
  then show ?thesis using assms by simp
next
  case (run r t)
  then have "mkdir_p (tree fs) (resolve (cwd fs) p) = (Inr (), t)" "fs1 = fs\<lparr>tree := t\<rparr>"
    using assms by simp_all
  with run(1) show ?thesis by (rule that)
qed

lemma fs_mkdir_tree:
  assumes "fs_mkdir fs p = (res, fs1)"
  obtains "fs1 = fs"
  | r t where "mkdir_p (tree fs) (resolve (cwd fs) p) = (r, t)" "fs1 = fs\<lparr>tree := t\<rparr>"
proof (cases rule: fs_mkdir_cases [where fs = fs and p = p])
  case (refused e)
  then have "fs1 = fs" using assms by simp
  then show ?thesis by (rule that(1))
next
  case (run r t)
  then have "fs1 = fs\<lparr>tree := t\<rparr>" using assms by simp
  with run(2) show ?thesis by (rule that(2))
qed

lemma storage_write_then_read:
  assumes "fst (storage_write r fs p c) = Inr ()"
  shows "storage_read r (snd (storage_write r fs p c)) p = Inr c"
proof (cases rule: storage_write_cases [where fs = fs and r = r and p = p and c = c])
  case (mkdir_fails e fs1)
  then show ?thesis using assms by simp
next
  case (write_fails fs1 e)
  then show ?thesis using assms by simp
next
  case (ok fs1 fs2)
  from ok(2) obtain t where t: "\<not> trailingSeparator (join r p)" "path_error (join r p) = None"
    "write_at (tree fs1) (resolve (cwd fs1) (join r p)) c = Inr t" "fs2 = fs1\<lparr>tree := t\<rparr>"
    by (rule fs_writeFile_success)
  from t(3) have "lookup t (resolve (cwd fs1) (join r p)) = Inr (File c)"
    by (rule write_at_lookup)
  then show ?thesis using ok(3) t(1,2,4)
    by (simp add: storage_read_def fs_readFile_def)
qed

lemma storage_write_not_enoent: "fst (storage_write r fs p c) \<noteq> Inl ENOENT"
proof (cases rule: storage_write_cases [where fs = fs and r = r and p = p and c = c])
  case (mkdir_fails e fs1)
  then have "e \<noteq> ENOENT"
    using fs_mkdir_errors join_nonempty by blast
  then show ?thesis using mkdir_fails by auto
next
  case (write_fails fs1 e)
  from write_fails(1) obtain t where
    t: "mkdir_p (tree fs) (resolve (cwd fs) (join (join r p) ''..'')) = (Inr (), t)"
    "fs1 = fs\<lparr>tree := t\<rparr>"
    by (rule fs_mkdir_ok)
  from t(1) obtain es where "lookup t (resolve (cwd fs) (join (join r p) ''..'')) = Inr (Dir es)"
    using mkdir_p_lookup by blast
  then have "lookup (tree fs1) (butlast (resolve (cwd fs1) (join r p))) = Inr (Dir es)"
    using t(2) by (simp add: resolve_parent join_nonempty)
  then have "fs_writeFile fs1 (join r p) c \<noteq> Inl ENOENT"
    using join_nonempty by (rule fs_writeFile_not_enoent)
  then show ?thesis using write_fails by auto
next
  case (ok fs1 fs2)
  then show ?thesis by simp
qed

lemma storage_write_outcome:
  assumes "paths_fit r p" "\<not> trailingSeparator (join r p)"
  shows "fst (storage_write r fs p c) =
         mkdir_then_write (tree fs) (resolve (cwd fs) (join r p)) c"
proof -
  let ?full = "join r p"
  let ?segs = "resolve (cwd fs) ?full"
  obtain res t where m: "mkdir_p (tree fs) (butlast ?segs) = (res, t)"
    by (cases "mkdir_p (tree fs) (butlast ?segs)")
  have fit: "path_error ?full = None" "path_error (join ?full ''..'') = None"
    using assms(1) by (simp_all add: paths_fit_def)
  have mk: "fs_mkdir fs (join ?full ''..'') = (res, fs\<lparr>tree := t\<rparr>)"
    using m fit(2) by (simp add: fs_mkdir_def join_nonempty resolve_parent)
  show ?thesis
  proof (cases res)
    case (Inl e)
    then show ?thesis using mk m by (simp add: storage_write_def mkdir_then_write_def)
  next
    case (Inr u)
    have wr: "fs_writeFile (fs\<lparr>tree := t\<rparr>) ?full c =
        (case write_at t ?segs c of Inl e \<Rightarrow> Inl e
         | Inr t' \<Rightarrow> Inr (fs\<lparr>tree := t'\<rparr>))"
      using assms(2) fit(1) by (simp add: fs_writeFile_def Let_def split: sum.splits)
    show ?thesis
    proof (cases "write_at t ?segs c")
      case (Inl e)
      then show ?thesis using Inr mk m wr
        by (simp add: storage_write_def mkdir_then_write_def)
    next
      case written: (Inr t')
      then show ?thesis using Inr mk m wr
        by (simp add: storage_write_def mkdir_then_write_def)
    qed
  qed
qed

lemma node_at_lookup:
  "path_error (join r p) = None \<Longrightarrow>
   node_at r fs p = lookup (tree fs) (resolve (cwd fs) (join r p))"
  by (simp add: node_at_def)

lemma node_at_found:
  assumes "node_at r fs p = Inr x"
  shows "path_error (join r p) = None"
    and "lookup (tree fs) (resolve (cwd fs) (join r p)) = Inr x"
  using assms by (auto simp: node_at_def split: option.splits)

lemma node_at_enoent:
  assumes "node_at r fs p = Inl ENOENT"
  shows "path_error (join r p) = None"
    and "lookup (tree fs) (resolve (cwd fs) (join r p)) = Inl ENOENT"
  using assms path_error_not_enoent [OF join_nonempty, of r p]
  by (auto simp: node_at_def split: option.splits)

lemma storage_write_writable:
  "(fst (storage_write r fs p c) = Inr ()) = writable r fs p"
proof
  let ?full = "join r p"
  let ?segs = "resolve (cwd fs) ?full"
  assume ok: "fst (storage_write r fs p c) = Inr ()"
  have fit: "paths_fit r p" and plain: "\<not> trailingSeparator ?full"
  proof -
    show "paths_fit r p"
    proof (cases rule: storage_write_cases [where fs = fs and r = r and p = p and c = c])
      case (mkdir_fails e fs1)
      then show ?thesis using ok by simp
    next
      case (write_fails fs1 e)
      then show ?thesis using ok by simp
    next
      case (ok fs1 fs2)
      from ok(1) obtain t where "path_error (join ?full ''..'') = None"
        by (rule fs_mkdir_ok)
      moreover from ok(2) obtain t' where "path_error ?full = None"
        by (rule fs_writeFile_success)
      ultimately show ?thesis by (simp add: paths_fit_def)
    qed
    show "\<not> trailingSeparator ?full"
    proof (cases rule: storage_write_cases [where fs = fs and r = r and p = p and c = c])
      case (mkdir_fails e fs1)
      then show ?thesis using ok by simp
    next
      case (write_fails fs1 e)
      then show ?thesis using ok by simp
    next
      case (ok fs1 fs2)
      from ok(2) obtain t' where "\<not> trailingSeparator ?full"
        by (rule fs_writeFile_success)
      then show ?thesis .
    qed
  qed
  have out: "mkdir_then_write (tree fs) ?segs c = Inr ()"
    using ok storage_write_outcome [OF fit plain, of fs c] by simp
  have node: "node_at r fs p = lookup (tree fs) ?segs"
    using fit by (simp add: node_at_lookup paths_fit_def)
  have "?segs \<noteq> [] \<and> list_all (\<lambda>s. length s \<le> NAME_MAX) ?segs \<and>
      (case lookup (tree fs) ?segs of Inl e \<Rightarrow> e = ENOENT | Inr (File d) \<Rightarrow> True
       | Inr (Dir es) \<Rightarrow> False)"
  proof (cases "lookup (tree fs) ?segs")
    case (Inl e)
    then have "?segs \<noteq> []" by auto
    then show ?thesis using out Inl
      by (auto simp: mkdir_then_write_outcome list_all_iff split: if_splits sum.splits node.splits)
  next
    case (Inr x)
    then have "\<forall>s\<in>set ?segs. length s \<le> NAME_MAX" by (rule lookup_short)
    then show ?thesis using out Inr
      by (cases x) (auto simp: mkdir_then_write_outcome list_all_iff split: option.splits if_splits)
  qed
  then show "writable r fs p"
    using fit plain node by (simp add: writable_def)
next
  let ?full = "join r p"
  let ?segs = "resolve (cwd fs) ?full"
  assume w: "writable r fs p"
  then have fit: "paths_fit r p" and plain: "\<not> trailingSeparator ?full"
    by (simp_all add: writable_def)
  have node: "node_at r fs p = lookup (tree fs) ?segs"
    using fit by (simp add: node_at_lookup paths_fit_def)
  have "mkdir_then_write (tree fs) ?segs c = Inr ()"
    using w unfolding writable_def node mkdir_then_write_outcome
    by (auto simp: list_all_iff split: sum.splits node.splits)
  then show "fst (storage_write r fs p c) = Inr ()"
    using storage_write_outcome [OF fit plain, of fs c] by simp
qed

lemma storage_write_directory:
  assumes "node_at r fs p = Inr (Dir es)" "path_error (join (join r p) ''..'') = None"
  shows "fst (storage_write r fs p c) = Inl EISDIR"
proof -
  let ?full = "join r p"
  let ?segs = "resolve (cwd fs) ?full"
  note found = node_at_found [OF assms(1)]
  have "\<exists>es'. lookup (tree fs) (butlast ?segs) = Inr (Dir es')"
  proof (cases "?segs = []")
    case True
    then show ?thesis using found(2) by simp
  next
    case False
    with found(2) show ?thesis by (rule lookup_parent)
  qed
  then obtain es' where parent: "lookup (tree fs) (butlast ?segs) = Inr (Dir es')" by blast
  then have "mkdir_p (tree fs) (butlast ?segs) = (Inr (), tree fs)"
    by (rule mkdir_p_existing)
  then have m: "fs_mkdir fs (join ?full ''..'') = (Inr (), fs)"
    using assms(2) by (simp add: fs_mkdir_def join_nonempty resolve_parent)
  have "fs_writeFile fs ?full c = Inl EISDIR"
  proof (cases "trailingSeparator ?full")
    case True
    then show ?thesis using parent found(1)
      by (simp add: fs_writeFile_def join_nonempty Let_def)
  next
    case False
    have "write_at (tree fs) ?segs c = Inl EISDIR" using found(2) by (rule write_at_dir)
    then show ?thesis using False found(1)
      by (simp add: fs_writeFile_def join_nonempty Let_def)
  qed
  then show ?thesis using m by (simp add: storage_write_def)
qed

lemma storage_write_blocked:
  assumes "node_at r fs p = Inl ENOTDIR" "path_error (join (join r p) ''..'') = None"
  shows "fst (storage_write r fs p c) = Inl ENOTDIR \<or> fst (storage_write r fs p c) = Inl EEXIST"
proof -
  let ?full = "join r p"
  let ?segs = "resolve (cwd fs) ?full"
  obtain res t where m: "mkdir_p (tree fs) (butlast ?segs) = (res, t)"
    by (cases "mkdir_p (tree fs) (butlast ?segs)")
  have mk: "fs_mkdir fs (join ?full ''..'') = (res, fs\<lparr>tree := t\<rparr>)"
    using m assms(2) by (simp add: fs_mkdir_def join_nonempty resolve_parent)
  have "lookup (tree fs) ?segs = Inl ENOTDIR"
    using assms(1) by (auto simp: node_at_def path_error_def split: option.splits if_splits)
  then have "fst (mkdir_p (tree fs) (butlast ?segs)) = Inl ENOTDIR \<or>
      fst (mkdir_p (tree fs) (butlast ?segs)) = Inl EEXIST"
    by (rule lookup_enotdir_mkdir)
  then have "res = Inl ENOTDIR \<or> res = Inl EEXIST" using m by simp
  then show ?thesis using mk by (auto simp: storage_write_def)
qed

lemma storage_write_long_name:
  assumes "paths_fit r p" "\<not> trailingSeparator (join r p)"
    "node_at r fs p = Inl ENAMETOOLONG \<or>
     node_at r fs p = Inl ENOENT \<and>
     \<not> list_all (\<lambda>s. length s \<le> NAME_MAX) (resolve (cwd fs) (join r p))"
  shows "fst (storage_write r fs p c) = Inl ENAMETOOLONG"
proof -
  have node: "node_at r fs p = lookup (tree fs) (resolve (cwd fs) (join r p))"
    using assms(1) by (simp add: node_at_lookup paths_fit_def)
  show ?thesis
    using assms(3) unfolding storage_write_outcome [OF assms(1,2)] node mkdir_then_write_outcome
    by (auto simp: list_all_iff)
qed

lemma storage_read_enoent:
  "storage_read r fs p = Inl ENOENT \<Longrightarrow> node_at r fs p = Inl ENOENT"
  by (auto simp: storage_read_def fs_readFile_def node_at_def join_nonempty Let_def
      split: option.splits sum.splits node.splits if_splits)

lemma storage_read_file:
  assumes "storage_read r fs q = Inr d"
  shows "node_at r fs q = Inr (File d)"
    and "\<not> trailingSeparator (join r q)"
  using assms
  by (auto simp: storage_read_def fs_readFile_def node_at_def Let_def join_nonempty
      split: option.splits sum.splits node.splits if_splits)

lemma storage_read_of_file:
  "node_at r fs q = Inr (File d) \<Longrightarrow> \<not> trailingSeparator (join r q) \<Longrightarrow>
   storage_read r fs q = Inr d"
  by (auto simp: storage_read_def fs_readFile_def node_at_def join_nonempty split: option.splits if_splits)

lemma storage_read_missing: "node_at r fs q = Inl e \<Longrightarrow> storage_read r fs q = Inl e"
  by (auto simp: storage_read_def fs_readFile_def node_at_def join_nonempty split: option.splits if_splits)

lemma storage_read_directory: "node_at r fs q = Inr (Dir es) \<Longrightarrow> storage_read r fs q = Inl EISDIR"
  by (auto simp: storage_read_def fs_readFile_def node_at_def join_nonempty split: option.splits if_splits)

lemma storage_read_error:
  "storage_read r fs q = Inl e \<Longrightarrow>
   node_at r fs q = Inl e \<or>
   (\<exists>es. node_at r fs q = Inr (Dir es) \<and> e = EISDIR) \<or>
   (\<exists>d. node_at r fs q = Inr (File d) \<and> trailingSeparator (join r q) \<and> e = ENOTDIR)"
  by (auto simp: storage_read_def fs_readFile_def node_at_def Let_def join_nonempty
      split: option.splits sum.splits node.splits if_splits)

text \<open>Whatever \<open>write\<close> ends with, every file of the storage other than the one written stays.\<close>

lemma storage_write_frame:
  assumes "storage_read r fs q = Inr d"
    "resolve (cwd fs) (join r q) \<noteq> resolve (cwd fs) (join r p)"
  shows "storage_read r (snd (storage_write r fs p c)) q = Inr d"
proof -
  let ?qs = "resolve (cwd fs) (join r q)"
  let ?ps = "resolve (cwd fs) (join r p)"
  note q = storage_read_file [OF assms(1)]
  note found = node_at_found [OF q(1)]
  have after_mkdir: "node_at r fs1 q = Inr (File d) \<and> cwd fs1 = cwd fs"
    if "fs_mkdir fs (join (join r p) ''..'') = (res, fs1)" for res fs1
    using that
  proof (cases rule: fs_mkdir_tree)
    case 1
    then show ?thesis using q(1) by simp
  next
    case (2 r' t)
    have "lookup t ?qs = Inr (File d)" using 2(1) found(2) by (rule mkdir_p_frame)
    then show ?thesis using 2(2) found(1) by (simp add: node_at_def)
  qed
  show ?thesis
  proof (cases rule: storage_write_cases [where fs = fs and r = r and p = p and c = c])
    case (mkdir_fails e fs1)
    from after_mkdir [OF mkdir_fails(1)] have "storage_read r fs1 q = Inr d"
      using q(2) by (intro storage_read_of_file) simp_all
    then show ?thesis using mkdir_fails(2) by simp
  next
    case (write_fails fs1 e)
    from after_mkdir [OF write_fails(1)] have "storage_read r fs1 q = Inr d"
      using q(2) by (intro storage_read_of_file) simp_all
    then show ?thesis using write_fails(3) by simp
  next
    case (ok fs1 fs2)
    note mid = after_mkdir [OF ok(1)]
    from ok(2) obtain t2 where
      t2: "write_at (tree fs1) (resolve (cwd fs1) (join r p)) c = Inr t2" "fs2 = fs1\<lparr>tree := t2\<rparr>"
      by (rule fs_writeFile_success)
    have "lookup (tree fs1) ?qs = Inr (File d)"
      using mid by (auto simp: node_at_def split: option.splits if_splits)
    moreover have "write_at (tree fs1) ?ps c = Inr t2" using t2(1) mid by simp
    ultimately have "lookup t2 ?qs = Inr (File (if ?qs = ?ps then c else d))"
      by (intro write_at_frame)
    then have "lookup t2 ?qs = Inr (File d)" using assms(2) by simp
    then have "node_at r fs2 q = Inr (File d)"
      using t2(2) mid found(1) by (simp add: node_at_def)
    then have "storage_read r fs2 q = Inr d"
      using q(2) by (intro storage_read_of_file) simp_all
    then show ?thesis using ok(3) by simp
  qed
qed


section \<open>The storage: list\<close>

lemma reaches_Nil [simp]: "reaches n []"
  by (simp add: reaches_def)

lemma reaches_File [simp]: "reaches (File c) (s # ss) = False"
  by (simp add: reaches_def)

lemma reaches_Dir_Cons:
  "reaches (Dir es) (s # ss) =
     (length s \<le> NAME_MAX \<and> (\<exists>n. find_entry es s = Some n \<and> reaches n ss))"
  by (auto simp: reaches_def split: option.splits)

lemma wf_find_entry:
  "wf_entries es \<Longrightarrow> find_entry es k = Some n \<Longrightarrow>
   proper_name k \<and> length k \<le> NAME_MAX \<and> wf_node n"
  by (induction es k rule: find_entry.induct) (auto split: option.splits if_splits)

lemma reaches_proper:
  "wf_node n \<Longrightarrow> reaches n ss \<Longrightarrow> \<forall>x\<in>set ss. proper_name x"
proof (induction ss arbitrary: n)
  case Nil
  then show ?case by simp
next
  case (Cons s ss)
  show ?case
  proof (cases n)
    case (File c)
    then show ?thesis using Cons.prems by simp
  next
    case (Dir es)
    then obtain m where m: "find_entry es s = Some m" "reaches m ss"
      using Cons.prems(2) by (auto simp: reaches_Dir_Cons)
    have "wf_entries es" using Cons.prems(1) Dir by simp
    then have wf: "proper_name s" "wf_node m" using m(1) wf_find_entry by blast+
    from wf(2) m(2) have "\<forall>x\<in>set ss. proper_name x" by (rule Cons.IH)
    then show ?thesis using wf(1) by simp
  qed
qed

text \<open>What \<open>readdir\<close> reports are the names down to each entry, joined with slashes.\<close>

lemma relative_below:
  assumes "resolve wd path = resolve wd original @ rel" "proper_name ent"
  shows "relative wd original (join path ent) = join_sep (rel @ [ent])"
    and "resolve wd (join path ent) = resolve wd original @ (rel @ [ent])"
proof -
  show r: "resolve wd (join path ent) = resolve wd original @ (rel @ [ent])"
    using assms by (simp add: resolve_join_name)
  show "relative wd original (join path ent) = join_sep (rel @ [ent])"
    unfolding relative_def r by (simp only: relative_segs_append)
qed

lemma read_level_segs:
  assumes "resolve wd path = resolve wd original @ rel"
  shows "wf_entries es \<Longrightarrow>
         read_level wd original path es = map (\<lambda>ss. join_sep (rel @ ss)) (level_segs es)"
proof (induction es rule: level_segs.induct)
  case 1
  then show ?case by simp
next
  case (2 k n es)
  from "2.prems" have wf: "proper_name k" "wf_entries es" by simp_all
  have "relative wd original (join path k) = join_sep (rel @ [k])"
    using assms wf(1) by (rule relative_below(1))
  then show ?case using "2.IH" [OF wf(2)] by simp
qed

lemma read_queue_segs:
  "wf_entries es \<Longrightarrow> resolve wd path = resolve wd original @ rel \<Longrightarrow>
   read_queue wd original path es = map (\<lambda>ss. join_sep (rel @ ss)) (queue_segs path es)"
proof (induction path es arbitrary: rel rule: queue_segs.induct)
  case (1 path)
  then show ?case by simp
next
  case (2 path k c es)
  from "2.prems"(1) have "wf_entries es" by simp
  then show ?case using "2.IH" "2.prems"(2) by simp
next
  case (3 path k sub es)
  from "3.prems"(1) have wf: "proper_name k" "wf_entries sub" "wf_entries es" by simp_all
  have tail: "read_queue wd original path es =
      map (\<lambda>ss. join_sep (rel @ ss)) (queue_segs path es)"
    using wf(3) "3.prems"(2) by (rule "3.IH"(1))
  show ?case
  proof (cases "length (join path k) < PATH_MAX")
    case False
    then show ?thesis using tail by simp
  next
    case True
    have down: "resolve wd (join path k) = resolve wd original @ (rel @ [k])"
      using "3.prems"(2) wf(1) by (rule relative_below(2))
    have "read_level wd original (join path k) sub =
        map (\<lambda>ss. join_sep ((rel @ [k]) @ ss)) (level_segs sub)"
      using down wf(2) by (rule read_level_segs)
    moreover have "read_queue wd original (join path k) sub =
        map (\<lambda>ss. join_sep ((rel @ [k]) @ ss)) (queue_segs (join path k) sub)"
      using True wf(2) down by (rule "3.IH"(2))
    ultimately show ?thesis using tail True by (simp add: comp_def)
  qed
qed

lemma readdirRecursive_walk:
  assumes "wf_entries es"
  shows "readdirRecursive wd path es = map join_sep (walk path es)"
proof -
  have start: "resolve wd path = resolve wd path @ []" by simp
  have "read_level wd path path es = map (\<lambda>ss. join_sep ([] @ ss)) (level_segs es)"
    using start assms by (rule read_level_segs)
  moreover have "read_queue wd path path es =
      map (\<lambda>ss. join_sep ([] @ ss)) (queue_segs path es)"
    using assms start by (rule read_queue_segs)
  ultimately show ?thesis by (simp add: readdirRecursive_def walk_def)
qed

text \<open>The report holds each entry that is reached and within reach, once.\<close>

lemma level_segs_mem:
  "(ss \<in> set (level_segs es)) = (\<exists>k. ss = [k] \<and> find_entry es k \<noteq> None)"
  by (induction es rule: level_segs.induct) auto

lemma queue_segs_mem:
  "wf_entries es \<Longrightarrow>
   (ss \<in> set (queue_segs path es)) =
     (\<exists>k sub rest. ss = k # rest \<and> find_entry es k = Some (Dir sub) \<and>
        length (join path k) < PATH_MAX \<and> rest \<in> set (walk (join path k) sub))"
proof (induction path es rule: queue_segs.induct)
  case (1 path)
  then show ?case by simp
next
  case (2 path k c es)
  from "2.prems" have wf: "wf_entries es" "find_entry es k = None" by simp_all
  have same: "(find_entry (ECons k (File c) es) k' = Some (Dir sub)) =
      (find_entry es k' = Some (Dir sub))" for k' sub
    using wf(2) by auto
  show ?case unfolding same using "2.IH" [OF wf(1)] by simp
next
  case (3 path k sub es)
  from "3.prems" have wf: "wf_entries es" "find_entry es k = None" by simp_all
  note tail = "3.IH"(1) [OF wf(1)]
  have found: "(find_entry (ECons k (Dir sub) es) k' = Some (Dir sub')) =
      (k' = k \<and> sub' = sub \<or> find_entry es k' = Some (Dir sub'))" for k' sub'
    using wf(2) by auto
  show ?case
  proof
    assume "ss \<in> set (queue_segs path (ECons k (Dir sub) es))"
    then consider "ss \<in> set (queue_segs path es)"
      | rest where "length (join path k) < PATH_MAX" "ss = k # rest"
          "rest \<in> set (walk (join path k) sub)"
      by (auto simp: walk_def split: option.splits if_splits)
    then show "\<exists>k' sub' rest. ss = k' # rest \<and>
        find_entry (ECons k (Dir sub) es) k' = Some (Dir sub') \<and>
        length (join path k') < PATH_MAX \<and> rest \<in> set (walk (join path k') sub')"
    proof cases
      case 1
      then show ?thesis unfolding found tail by blast
    next
      case (2 rest)
      then show ?thesis unfolding found by blast
    qed
  next
    assume "\<exists>k' sub' rest. ss = k' # rest \<and>
        find_entry (ECons k (Dir sub) es) k' = Some (Dir sub') \<and>
        length (join path k') < PATH_MAX \<and> rest \<in> set (walk (join path k') sub')"
    then obtain k' sub' rest where r: "ss = k' # rest"
      "k' = k \<and> sub' = sub \<or> find_entry es k' = Some (Dir sub')"
      "length (join path k') < PATH_MAX" "rest \<in> set (walk (join path k') sub')"
      unfolding found by blast
    from r(2) show "ss \<in> set (queue_segs path (ECons k (Dir sub) es))"
    proof
      assume "k' = k \<and> sub' = sub"
      then show ?thesis using r(1,3,4) by (auto simp: walk_def)
    next
      assume "find_entry es k' = Some (Dir sub')"
      then have "ss \<in> set (queue_segs path es)" unfolding tail using r(1,3,4) by blast
      then show ?thesis by simp
    qed
  qed
qed

lemma walk_mem:
  "wf_entries es \<Longrightarrow>
   (ss \<in> set (walk path es)) = (ss \<noteq> [] \<and> reaches (Dir es) ss \<and> within_reach path ss)"
proof (induction ss arbitrary: path es)
  case Nil
  then show ?case by (simp add: walk_def level_segs_mem queue_segs_mem)
next
  case (Cons k rest)
  note wf = Cons.prems
  show ?case
  proof (cases rest)
    case Nil
    have "[] \<notin> set (walk p sub)" if "wf_entries sub" for p and sub :: "'a entries"
      using that by (simp add: walk_def level_segs_mem queue_segs_mem)
    then have "[k] \<notin> set (queue_segs path es)"
      using wf wf_find_entry [OF wf] by (fastforce simp: queue_segs_mem)
    moreover have "reaches (Dir es) [k] = (find_entry es k \<noteq> None)"
      using wf_find_entry [OF wf] by (auto simp: reaches_Dir_Cons)
    ultimately show ?thesis using Nil by (auto simp: walk_def level_segs_mem)
  next
    case rest: (Cons t ts)
    have "(k # rest \<in> set (walk path es)) = (k # rest \<in> set (queue_segs path es))"
      using rest by (auto simp: walk_def level_segs_mem)
    also have "\<dots> = (\<exists>sub. find_entry es k = Some (Dir sub) \<and>
        length (join path k) < PATH_MAX \<and> rest \<in> set (walk (join path k) sub))"
      using wf by (simp add: queue_segs_mem)
    also have "\<dots> = (\<exists>sub. find_entry es k = Some (Dir sub) \<and>
        length (join path k) < PATH_MAX \<and>
        reaches (Dir sub) rest \<and> within_reach (join path k) rest)"
    proof -
      have "(rest \<in> set (walk (join path k) sub)) =
          (reaches (Dir sub) rest \<and> within_reach (join path k) rest)"
        if "find_entry es k = Some (Dir sub)" for sub
      proof -
        have "wf_entries sub" using wf_find_entry [OF wf that] by simp
        then show ?thesis using Cons.IH [of sub "join path k"] rest by simp
      qed
      then show ?thesis by blast
    qed
    also have "\<dots> = (reaches (Dir es) (k # rest) \<and> within_reach path (k # rest))"
    proof -
      have "reaches (Dir es) (k # rest) =
          (\<exists>sub. find_entry es k = Some (Dir sub) \<and> reaches (Dir sub) rest)"
      proof
        assume "reaches (Dir es) (k # rest)"
        then obtain n where n: "find_entry es k = Some n" "reaches n rest"
          by (auto simp: reaches_Dir_Cons)
        then show "\<exists>sub. find_entry es k = Some (Dir sub) \<and> reaches (Dir sub) rest"
          using rest by (cases n) auto
      next
        assume "\<exists>sub. find_entry es k = Some (Dir sub) \<and> reaches (Dir sub) rest"
        then show "reaches (Dir es) (k # rest)"
          using wf_find_entry [OF wf] by (auto simp: reaches_Dir_Cons)
      qed
      then show ?thesis using rest by auto
    qed
    finally show ?thesis by simp
  qed
qed

lemma level_segs_distinct: "wf_entries es \<Longrightarrow> distinct (level_segs es)"
  by (induction es rule: level_segs.induct) (auto simp: level_segs_mem)

lemma queue_segs_distinct: "wf_entries es \<Longrightarrow> distinct (queue_segs path es)"
proof (induction path es rule: queue_segs.induct)
  case (1 path)
  then show ?case by simp
next
  case (2 path k c es)
  then show ?case by simp
next
  case (3 path k sub es)
  from "3.prems" have wf: "wf_entries es" "find_entry es k = None" "wf_entries sub"
    by simp_all
  have tail: "distinct (queue_segs path es)" using wf(1) by (rule "3.IH"(1))
  show ?case
  proof (cases "length (join path k) < PATH_MAX")
    case False
    then show ?thesis using tail by simp
  next
    case True
    have "distinct (queue_segs (join path k) sub)" using True wf(3) by (rule "3.IH"(2))
    moreover have "distinct (level_segs sub)" using wf(3) by (rule level_segs_distinct)
    moreover have "set (level_segs sub) \<inter> set (queue_segs (join path k) sub) = {}"
    proof -
      have "[] \<notin> set (walk p d)" if "wf_entries d" for p and d :: "'a entries"
        using that by (simp add: walk_mem)
      then show ?thesis
        using wf(3) wf_find_entry [OF wf(3)]
        by (fastforce simp: level_segs_mem queue_segs_mem)
    qed
    ultimately have whole: "distinct (level_segs sub @ queue_segs (join path k) sub)"
      by simp
    have "inj_on ((#) k) (set (level_segs sub @ queue_segs (join path k) sub))"
      by (simp add: inj_on_def)
    with whole have "distinct (map ((#) k) (level_segs sub @ queue_segs (join path k) sub))"
      by (simp only: distinct_map)
    moreover have "set (queue_segs path es) \<inter>
        set (map ((#) k) (level_segs sub @ queue_segs (join path k) sub)) = {}"
      using wf(1,2) by (auto simp: queue_segs_mem)
    ultimately show ?thesis using tail True by simp
  qed
qed

lemma walk_distinct: "wf_entries es \<Longrightarrow> distinct (walk path es)"
proof -
  assume wf: "wf_entries es"
  have "[] \<notin> set (walk p d)" if "wf_entries d" for p and d :: "'a entries"
    using that by (simp add: walk_mem)
  then have "set (level_segs es) \<inter> set (queue_segs path es) = {}"
    using wf wf_find_entry [OF wf] by (fastforce simp: level_segs_mem queue_segs_mem)
  then show ?thesis
    using wf by (simp add: walk_def level_segs_distinct queue_segs_distinct)
qed

lemma walk_proper:
  assumes "wf_entries es" "ss \<in> set (walk path es)"
  shows "ss \<noteq> []" "\<forall>x\<in>set ss. proper_name x"
proof -
  from assms have r: "ss \<noteq> []" "reaches (Dir es) ss" by (simp_all add: walk_mem)
  show "ss \<noteq> []" by (rule r(1))
  have "wf_node (Dir es)" using assms(1) by simp
  then show "\<forall>x\<in>set ss. proper_name x" using r(2) by (rule reaches_proper)
qed

lemma storage_list_missing:
  "node_at r fs prefix = Inl ENOENT \<Longrightarrow> storage_list r fs prefix = Inr []"
  by (auto simp: node_at_def storage_list_def fs_readdir_def join_nonempty split: option.splits if_splits)

lemma storage_list_error:
  "node_at r fs prefix = Inl e \<Longrightarrow> e \<noteq> ENOENT \<Longrightarrow> storage_list r fs prefix = Inl e"
  by (auto simp: node_at_def storage_list_def fs_readdir_def join_nonempty split: option.splits if_splits)

lemma storage_list_file:
  "node_at r fs prefix = Inr (File c) \<Longrightarrow> storage_list r fs prefix = Inl ENOTDIR"
  by (auto simp: node_at_def storage_list_def fs_readdir_def join_nonempty split: option.splits if_splits)

lemma storage_list_dir:
  assumes "node_at r fs prefix = Inr (Dir es)" "wf_entries es"
  shows "storage_list r fs prefix =
         Inr (map (\<lambda>ss. relative (cwd fs) r (join r (join prefix (join_sep ss))))
                (walk (join r prefix) es))"
proof -
  note found = node_at_found [OF assms(1)]
  have "fs_readdir fs (join r prefix) = Inr (map join_sep (walk (join r prefix) es))"
    using found assms(2)
    by (simp add: fs_readdir_def join_nonempty readdirRecursive_walk)
  then show ?thesis by (simp add: storage_list_def comp_def)
qed

lemma storage_list_below:
  assumes "node_at r fs prefix = Inr (Dir es)" "wf_entries es" "below_root r prefix"
  shows "storage_list r fs prefix =
         Inr (map (\<lambda>ss. join_sep (normalizeString True (split_sep prefix) @ ss))
                (walk (join r prefix) es))"
proof -
  have "relative (cwd fs) r (join r (join prefix (join_sep ss))) =
      join_sep (normalizeString True (split_sep prefix) @ ss)"
    if "ss \<in> set (walk (join r prefix) es)" for ss
    using assms(3) walk_proper [OF assms(2) that] by (rule relative_join_below)
  then show ?thesis using storage_list_dir [OF assms(1,2)] by simp
qed


lemma join_sep_inj:
  assumes "xs \<noteq> []" "\<forall>x\<in>set xs. proper_name x" "ys \<noteq> []" "\<forall>y\<in>set ys. proper_name y"
    "join_sep xs = join_sep ys"
  shows "xs = ys"
proof -
  have "xs = split_sep (join_sep xs)"
    using assms(1,2) by (rule normal_form_facts(4) [symmetric])
  also have "\<dots> = split_sep (join_sep ys)" by (simp only: assms(5))
  also have "\<dots> = ys" using assms(3,4) by (rule normal_form_facts(4))
  finally show ?thesis .
qed

lemma storage_list_below_distinct:
  assumes "wf_entries es" "below_root r prefix"
  shows "distinct (map (\<lambda>ss. join_sep (normalizeString True (split_sep prefix) @ ss))
                   (walk path es))"
proof -
  let ?ps = "normalizeString True (split_sep prefix)"
  have ps: "\<forall>x\<in>set ?ps. proper_name x"
    using assms(2) by (simp add: below_root_def list_all_iff)
  have "inj_on (\<lambda>ss. join_sep (?ps @ ss)) (set (walk path es))"
  proof (rule inj_onI)
    fix a b
    assume a: "a \<in> set (walk path es)" and b: "b \<in> set (walk path es)"
      and eq: "join_sep (?ps @ a) = join_sep (?ps @ b)"
    note pa = walk_proper [OF assms(1) a] and pb = walk_proper [OF assms(1) b]
    have "?ps @ a = ?ps @ b"
    proof (rule join_sep_inj)
      show "?ps @ a \<noteq> []" using pa(1) by simp
      show "\<forall>x\<in>set (?ps @ a). proper_name x" using ps pa(2) by auto
      show "?ps @ b \<noteq> []" using pb(1) by simp
      show "\<forall>y\<in>set (?ps @ b). proper_name y" using ps pb(2) by auto
      show "join_sep (?ps @ a) = join_sep (?ps @ b)" by (rule eq)
    qed
    then show "a = b" by simp
  qed
  moreover have "distinct (walk path es)" using assms(1) by (rule walk_distinct)
  ultimately show ?thesis by (simp only: distinct_map)
qed

section \<open>Schemas are idempotent\<close>

lemma idempotentD: "idempotent s \<Longrightarrow> s j = Some v \<Longrightarrow> s v = Some v"
  by (auto simp: idempotent_def)

lemma idempotent_z_string: "idempotent z_string"
  by (auto simp: idempotent_def z_string_def split: json.splits)

lemma idempotent_z_boolean: "idempotent z_boolean"
  by (auto simp: idempotent_def z_boolean_def split: json.splits)

lemma idempotent_z_enum: "idempotent (z_enum options)"
  by (auto simp: idempotent_def z_enum_def split: json.splits if_splits)

lemma parse_all_idem:
  "idempotent s \<Longrightarrow> parse_all s xs = Some vs \<Longrightarrow> parse_all s vs = Some vs"
proof (induction xs arbitrary: vs)
  case Nil
  then show ?case by simp
next
  case (Cons x xs)
  from Cons.prems(2) obtain v ws where v: "s x = Some v" "parse_all s xs = Some ws" "vs = v # ws"
    by (auto split: option.splits)
  have "s v = Some v" using Cons.prems(1) v(1) by (rule idempotentD)
  moreover have "parse_all s ws = Some ws" using Cons.prems(1) v(2) by (rule Cons.IH)
  ultimately show ?case using v(3) by simp
qed

lemma idempotent_z_array:
  assumes "idempotent s"
  shows "idempotent (z_array s)"
  unfolding idempotent_def
proof (intro allI impI)
  fix j v
  assume "z_array s j = Some v"
  then obtain xs vs where "j = JArr xs" "parse_all s xs = Some vs" "v = JArr vs"
    by (auto simp: z_array_def split: json.splits)
  moreover from this have "parse_all s vs = Some vs"
    using assms parse_all_idem by blast
  ultimately show "z_array s v = Some v" by (simp add: z_array_def)
qed

lemma parse_entries_idem:
  "idempotent s \<Longrightarrow> parse_entries s kvs = Some vs \<Longrightarrow> parse_entries s vs = Some vs"
proof (induction kvs arbitrary: vs)
  case Nil
  then show ?case by simp
next
  case (Cons kx kvs)
  obtain k x where kx: "kx = (k, x)" by (cases kx)
  from Cons.prems(2) kx obtain v ws where
    v: "s x = Some v" "parse_entries s kvs = Some ws" "vs = (k, v) # ws"
    by (auto split: option.splits)
  have "s v = Some v" using Cons.prems(1) v(1) by (rule idempotentD)
  moreover have "parse_entries s ws = Some ws" using Cons.prems(1) v(2) by (rule Cons.IH)
  ultimately show ?case using v(3) by simp
qed

lemma idempotent_z_record:
  assumes "idempotent s"
  shows "idempotent (z_record s)"
  unfolding idempotent_def
proof (intro allI impI)
  fix j v
  assume "z_record s j = Some v"
  then obtain kvs vs where "j = JObj kvs" "parse_entries s kvs = Some vs" "v = JObj vs"
    by (auto simp: z_record_def split: json.splits)
  moreover from this have "parse_entries s vs = Some vs"
    using assms parse_entries_idem by blast
  ultimately show "z_record s v = Some v" by (simp add: z_record_def)
qed

lemma parse_shape_keys:
  "parse_shape shape kvs = Some out \<Longrightarrow> fst ` set out \<subseteq> fst ` set shape"
proof (induction shape arbitrary: out)
  case Nil
  then show ?case by simp
next
  case (Cons f shape)
  obtain key p s where f: "f = (key, p, s)" by (cases f)
  show ?case
  proof (cases "map_of kvs key")
    case None
    then have "parse_shape shape kvs = Some out"
      using Cons.prems f by (cases p) simp_all
    then have "fst ` set out \<subseteq> fst ` set shape" by (rule Cons.IH)
    then show ?thesis by auto
  next
    case (Some x)
    then obtain v vs where v: "parse_shape shape kvs = Some vs" "out = (key, v) # vs"
      using Cons.prems f by (auto split: option.splits)
    from v(1) have "fst ` set vs \<subseteq> fst ` set shape" by (rule Cons.IH)
    then show ?thesis using v(2) f by auto
  qed
qed

lemma parse_shape_agree:
  assumes "distinct (map fst shape)" "\<forall>f\<in>set shape. idempotent (snd (snd f))"
    "parse_shape shape kvs = Some out"
    "\<forall>k\<in>fst ` set shape. map_of kvs' k = map_of out k"
  shows "parse_shape shape kvs' = Some out"
  using assms
proof (induction shape arbitrary: out)
  case Nil
  then show ?case by simp
next
  case (Cons f shape)
  obtain key p s where f: "f = (key, p, s)" by (cases f)
  have fresh: "key \<notin> fst ` set shape" and d: "distinct (map fst shape)"
    using Cons.prems(1) f by auto
  have idem: "idempotent s" "\<forall>f\<in>set shape. idempotent (snd (snd f))"
    using Cons.prems(2) f by auto
  show ?case
  proof (cases "map_of kvs key")
    case None
    have opt: "p = Optional"
      using None Cons.prems(3) f by (cases p) simp_all
    have rest: "parse_shape shape kvs = Some out"
      using None Cons.prems(3) f opt by simp
    have "fst ` set out \<subseteq> fst ` set shape" using rest by (rule parse_shape_keys)
    then have "map_of out key = None" using fresh by (auto simp: map_of_eq_None_iff)
    then have "map_of kvs' key = None" using Cons.prems(4) f by simp
    moreover have "parse_shape shape kvs' = Some out"
      using d idem(2) rest Cons.prems(4) by (intro Cons.IH) auto
    ultimately show ?thesis using f opt by simp
  next
    case (Some x)
    then obtain v vs where v: "s x = Some v" "parse_shape shape kvs = Some vs"
      "out = (key, v) # vs"
      using Cons.prems(3) f by (auto split: option.splits)
    have "map_of kvs' key = Some v" using Cons.prems(4) f v(3) by simp
    moreover have "s v = Some v" using idem(1) v(1) by (rule idempotentD)
    moreover have "parse_shape shape kvs' = Some vs"
    proof (rule Cons.IH [OF d idem(2) v(2)])
      show "\<forall>k\<in>fst ` set shape. map_of kvs' k = map_of vs k"
        using Cons.prems(4) v(3) fresh f by auto
    qed
    ultimately show ?thesis using f v(3) by simp
  qed
qed

lemma idempotent_z_object:
  assumes "distinct (map fst shape)" "\<forall>f\<in>set shape. idempotent (snd (snd f))"
  shows "idempotent (z_object shape)"
  unfolding idempotent_def
proof (intro allI impI)
  fix j v
  assume "z_object shape j = Some v"
  then obtain kvs out where j: "j = JObj kvs" and p: "parse_shape shape kvs = Some out"
    and v: "v = JObj out"
    by (auto simp: z_object_def split: json.splits)
  have "parse_shape shape out = Some out"
    by (rule parse_shape_agree [OF assms p]) simp
  then show "z_object shape v = Some v" using v by (simp add: z_object_def)
qed

lemma idempotent_ComponentMetadataSchema: "idempotent ComponentMetadataSchema"
  unfolding ComponentMetadataSchema_def
  by (rule idempotent_z_object)
     (simp_all add: idempotent_z_string idempotent_z_boolean idempotent_z_enum
        idempotent_z_array idempotent_z_record)

lemma idempotent_ComponentFileSchema: "idempotent ComponentFileSchema"
  unfolding ComponentFileSchema_def
  by (rule idempotent_z_object) (simp_all add: idempotent_z_string idempotent_z_enum)

lemma idempotent_ComponentSchema: "idempotent ComponentSchema"
  unfolding ComponentSchema_def
  by (rule idempotent_z_object)
     (simp_all add: idempotent_z_string idempotent_z_array
        idempotent_ComponentMetadataSchema idempotent_ComponentFileSchema)

section \<open>The controller\<close>

lemma errno_code_enoent: "(errno_code e = ''ENOENT'') = (e = ENOENT)"
  by (cases e) simp_all

lemma errorHandler_system: "errorHandler (SystemError e) = internal_error"
  by (simp add: errorHandler_def internal_error_def)

subsection \<open>create\<close>

lemma create_invalid:
  "ComponentSchema requestBody = None \<Longrightarrow> create rootDir fs requestBody = (validation_error, fs)"
  by (simp add: create_def errorHandler_def validation_error_def)

lemma create_conflict:
  assumes "ComponentSchema requestBody = Some component"
    "storage_read rootDir fs (manifest_path (metadata_string component ''name'')
        (metadata_string component ''version'')) = Inr stored"
  shows "create rootDir fs requestBody = (version_conflict, fs)"
  using assms by (simp add: create_def Let_def errorHandler_def version_conflict_def)

lemma create_read_error:
  assumes "ComponentSchema requestBody = Some component"
    "storage_read rootDir fs (manifest_path (metadata_string component ''name'')
        (metadata_string component ''version'')) = Inl e" "e \<noteq> ENOENT"
  shows "create rootDir fs requestBody = (internal_error, fs)"
  using assms
  by (simp add: create_def Let_def errorHandler_system errno_code_enoent)

lemma create_write:
  assumes "ComponentSchema requestBody = Some component"
    "storage_read rootDir fs (manifest_path (metadata_string component ''name'')
        (metadata_string component ''version'')) = Inl ENOENT"
  shows "create rootDir fs requestBody =
     (case storage_write rootDir fs (manifest_path (metadata_string component ''name'')
              (metadata_string component ''version'')) (JsonText component) of
        (Inl e, fs') \<Rightarrow> (internal_error, fs')
      | (Inr u, fs') \<Rightarrow> (\<lparr>status = 201, body = Payload component\<rparr>, fs'))"
  using assms
  by (simp add: create_def Let_def errorHandler_system split: prod.splits sum.splits)

lemma create_frame:
  assumes "storage_read rootDir fs path = Inr d"
  shows "storage_read rootDir (snd (create rootDir fs requestBody)) path = Inr d"
proof (cases "ComponentSchema requestBody")
  case None
  then show ?thesis using assms by (simp add: create_invalid)
next
  case (Some component)
  let ?p = "manifest_path (metadata_string component ''name'')
        (metadata_string component ''version'')"
  show ?thesis
  proof (cases "storage_read rootDir fs ?p")
    case (Inr stored)
    then show ?thesis using Some assms by (simp add: create_conflict)
  next
    case (Inl e)
    show ?thesis
    proof (cases "e = ENOENT")
      case False
      then show ?thesis using Some Inl assms by (simp add: create_read_error)
    next
      case True
      have "snd (create rootDir fs requestBody) =
            snd (storage_write rootDir fs ?p (JsonText component))"
        using Some Inl True by (simp add: create_write split: prod.splits sum.splits)
      moreover have "resolve (cwd fs) (join rootDir path) \<noteq> resolve (cwd fs) (join rootDir ?p)"
      proof
        assume same: "resolve (cwd fs) (join rootDir path) = resolve (cwd fs) (join rootDir ?p)"
        have "node_at rootDir fs ?p = Inl ENOENT"
          using Inl True by (simp add: storage_read_enoent)
        then have "lookup (tree fs) (resolve (cwd fs) (join rootDir ?p)) = Inl ENOENT"
          by (rule node_at_enoent(2))
        moreover have "lookup (tree fs) (resolve (cwd fs) (join rootDir path)) = Inr (File d)"
          using storage_read_file(1) [OF assms] by (rule node_at_found(2))
        ultimately show False using same by simp
      qed
      ultimately show ?thesis using storage_write_frame [of rootDir fs path d ?p] assms
        by simp
    qed
  qed
qed

lemma create_created:
  assumes "status (fst (create rootDir fs requestBody)) = 201"
  obtains component where "ComponentSchema requestBody = Some component"
    "storage_read rootDir (snd (create rootDir fs requestBody))
       (manifest_path (metadata_string component ''name'')
          (metadata_string component ''version'')) = Inr (JsonText component)"
    "fst (create rootDir fs requestBody) = \<lparr>status = 201, body = Payload component\<rparr>"
proof (cases "ComponentSchema requestBody")
  case None
  then show ?thesis using assms by (simp add: create_invalid validation_error_def)
next
  case (Some component)
  let ?p = "manifest_path (metadata_string component ''name'')
        (metadata_string component ''version'')"
  show ?thesis
  proof (cases "storage_read rootDir fs ?p")
    case (Inr stored)
    then show ?thesis using Some assms by (simp add: create_conflict version_conflict_def)
  next
    case (Inl e)
    show ?thesis
    proof (cases "e = ENOENT")
      case False
      then show ?thesis using Some Inl assms by (simp add: create_read_error internal_error_def)
    next
      case True
      let ?w = "storage_write rootDir fs ?p (JsonText component)"
      have c: "create rootDir fs requestBody =
         (case ?w of (Inl e, fs') \<Rightarrow> (internal_error, fs')
          | (Inr u, fs') \<Rightarrow> (\<lparr>status = 201, body = Payload component\<rparr>, fs'))"
        using Some Inl True by (simp add: create_write)
      have ok: "fst ?w = Inr ()"
        using assms c by (cases ?w; cases "fst ?w") (auto simp: internal_error_def)
      then have "storage_read rootDir (snd ?w) ?p = Inr (JsonText component)"
        by (rule storage_write_then_read)
      moreover have "create rootDir fs requestBody =
          (\<lparr>status = 201, body = Payload component\<rparr>, snd ?w)"
        using c ok by (cases ?w) auto
      ultimately show ?thesis using that Some by simp
    qed
  qed
qed

text \<open>Served with no other request in between, the steps of \<open>create\<close> are \<open>create\<close>.\<close>

lemma create_steps:
  "interleave rootDir [First, First, First, First] (Received requestBody, other, fs) =
     (Answered (fst (create rootDir fs requestBody)), other,
      snd (create rootDir fs requestBody))"
proof (cases "ComponentSchema requestBody")
  case None
  then show ?thesis by (simp add: create_step_def create_def)
next
  case (Some component)
  let ?p = "manifest_path (metadata_string component ''name'')
        (metadata_string component ''version'')"
  have first: "create_step rootDir (Received requestBody) fs = (AwaitingRead component, fs)"
    using Some by (simp add: create_step_def)
  show ?thesis
  proof (cases "storage_read rootDir fs ?p")
    case (Inr found)
    then have "create_step rootDir (AwaitingRead component) fs =
        (Answered version_conflict, fs)"
      by (simp add: create_step_def Let_def errorHandler_def version_conflict_def)
    then show ?thesis using first Some Inr
      by (simp add: create_conflict create_step_def)
  next
    case (Inl e)
    show ?thesis
    proof (cases "e = ENOENT")
      case False
      then have "create_step rootDir (AwaitingRead component) fs =
          (Answered internal_error, fs)"
        using Inl by (simp add: create_step_def Let_def errorHandler_system errno_code_enoent)
      then show ?thesis using first Some Inl False
        by (simp add: create_read_error create_step_def)
    next
      case True
      have second: "create_step rootDir (AwaitingRead component) fs =
          (AwaitingMkdir component, fs)"
        using Inl True by (simp add: create_step_def Let_def)
      obtain res fs1 where m: "fs_mkdir fs (join (join rootDir ?p) ''..'') = (res, fs1)"
        by (cases "fs_mkdir fs (join (join rootDir ?p) ''..'')")
      have whole: "create rootDir fs requestBody =
         (case storage_write rootDir fs ?p (JsonText component) of
            (Inl e, fs') \<Rightarrow> (internal_error, fs')
          | (Inr u, fs') \<Rightarrow> (\<lparr>status = 201, body = Payload component\<rparr>, fs'))"
        using Some Inl True by (simp add: create_write)
      show ?thesis
      proof (cases res)
        case failed: (Inl e')
        then have "create_step rootDir (AwaitingMkdir component) fs =
            (Answered internal_error, fs1)"
          using m by (simp add: create_step_def Let_def errorHandler_system)
        moreover have "create rootDir fs requestBody = (internal_error, fs1)"
          using whole m failed by (simp add: storage_write_def)
        ultimately show ?thesis using first second by (simp add: create_step_def)
      next
        case made: (Inr u)
        then have third: "create_step rootDir (AwaitingMkdir component) fs =
            (AwaitingWriteFile component, fs1)"
          using m by (simp add: create_step_def Let_def)
        show ?thesis
        proof (cases "fs_writeFile fs1 (join rootDir ?p) (JsonText component)")
          case (Inl e')
          then have "create_step rootDir (AwaitingWriteFile component) fs1 =
              (Answered internal_error, fs1)"
            by (simp add: create_step_def Let_def errorHandler_system)
          moreover have "create rootDir fs requestBody = (internal_error, fs1)"
            using whole m made Inl by (simp add: storage_write_def)
          ultimately show ?thesis using first second third by simp
        next
          case (Inr fs2)
          then have "create_step rootDir (AwaitingWriteFile component) fs1 =
              (Answered \<lparr>status = 201, body = Payload component\<rparr>, fs2)"
            by (simp add: create_step_def Let_def)
          moreover have "create rootDir fs requestBody =
              (\<lparr>status = 201, body = Payload component\<rparr>, fs2)"
            using whole m made Inr by (simp add: storage_write_def)
          ultimately show ?thesis using first second third by simp
        qed
      qed
    qed
  qed
qed

subsection \<open>getDetails and getVersion\<close>

lemma getDetails_missing:
  assumes "node_at rootDir fs (''components/'' @ name) = Inl ENOENT"
  shows "getDetails rootDir fs now name =
         not_found ''COMPONENT_NOT_FOUND'' ''Component not found''"
  using storage_list_missing [OF assms]
  by (simp add: getDetails_def errorHandler_def not_found_def)

lemma getDetails_empty:
  assumes "node_at rootDir fs (''components/'' @ name) = Inr (Dir ENil)"
  shows "getDetails rootDir fs now name =
         not_found ''COMPONENT_NOT_FOUND'' ''Component not found''"
proof -
  have "wf_entries (ENil :: buffer entries)" by simp
  with assms have "storage_list rootDir fs (''components/'' @ name) = Inr []"
    by (simp add: storage_list_dir walk_def)
  then show ?thesis by (simp add: getDetails_def errorHandler_def not_found_def)
qed

lemma getDetails_error:
  assumes "node_at rootDir fs (''components/'' @ name) = Inl e" "e \<noteq> ENOENT"
  shows "getDetails rootDir fs now name = internal_error"
  using storage_list_error [OF assms]
  by (simp add: getDetails_def errorHandler_system)

lemma getDetails_file:
  assumes "node_at rootDir fs (''components/'' @ name) = Inr (File c)"
  shows "getDetails rootDir fs now name = internal_error"
  using storage_list_file [OF assms]
  by (simp add: getDetails_def errorHandler_system)

lemma getVersion_missing:
  assumes "storage_read rootDir fs (manifest_path name version) = Inl ENOENT"
  shows "getVersion rootDir fs name version =
         not_found ''VERSION_NOT_FOUND'' ''Version not found''"
  using assms by (simp add: getVersion_def errorHandler_def not_found_def)

lemma getVersion_other_error:
  assumes "storage_read rootDir fs (manifest_path name version) = Inl e" "e \<noteq> ENOENT"
  shows "getVersion rootDir fs name version = internal_error"
  using assms by (simp add: getVersion_def errorHandler_system errno_code_enoent)

lemma getVersion_not_json:
  assumes "storage_read rootDir fs (manifest_path name version) = Inr (Bytes text)"
  shows "getVersion rootDir fs name version = internal_error"
  using assms by (simp add: getVersion_def JSON_parse_def errorHandler_def internal_error_def)

lemma getVersion_invalid:
  assumes "storage_read rootDir fs (manifest_path name version) = Inr (JsonText j)"
    "ComponentSchema j = None"
  shows "getVersion rootDir fs name version = validation_error"
  using assms by (simp add: getVersion_def JSON_parse_def errorHandler_def validation_error_def)

lemma getVersion_valid:
  assumes "storage_read rootDir fs (manifest_path name version) = Inr (JsonText j)"
    "ComponentSchema j = Some component"
  shows "getVersion rootDir fs name version = \<lparr>status = 200, body = Payload component\<rparr>"
  using assms by (simp add: getVersion_def JSON_parse_def)

section \<open>The resolver finds a reachable cycle\<close>

lemma visit_cyclic:
  "fst r \<in> set visiting \<Longrightarrow>
   visit fetchManifest (r, visiting) t =
     Inl (CyclicDependency (dropWhile (\<lambda>n. n \<noteq> fst r) visiting @ [fst r]))"
  by (simp add: visit_def)

lemma visit_fetch_fails:
  "fst r \<notin> set visiting \<Longrightarrow> fetchManifest r = Inl f \<Longrightarrow>
   visit fetchManifest (r, visiting) t = Inl f"
  by (simp add: visit_def)

lemma visit_fetched:
  "fst r \<notin> set visiting \<Longrightarrow> fetchManifest r = Inr m \<Longrightarrow>
   \<exists>t'. visit fetchManifest (r, visiting) t =
     Inr (map (\<lambda>d. (d, visiting @ [fst r])) (components m), t')"
  by (simp add: visit_def)

lemma visit_cases:
  obtains (cyclic) r visiting where "item = (r, visiting)" "fst r \<in> set visiting"
      "visit fetchManifest item t =
         Inl (CyclicDependency (dropWhile (\<lambda>n. n \<noteq> fst r) visiting @ [fst r]))"
  | (fails) r visiting f where "item = (r, visiting)" "fst r \<notin> set visiting"
      "fetchManifest r = Inl f" "visit fetchManifest item t = Inl f"
  | (fetched) r visiting m t' where "item = (r, visiting)" "fst r \<notin> set visiting"
      "fetchManifest r = Inr m"
      "visit fetchManifest item t = Inr (map (\<lambda>d. (d, visiting @ [fst r])) (components m), t')"
      "expand fetchManifest [item] = map (\<lambda>d. (d, visiting @ [fst r])) (components m)"
proof -
  obtain r visiting where item: "item = (r, visiting)" by (cases item)
  show ?thesis
  proof (cases "fst r \<in> set visiting")
    case True
    then show ?thesis using cyclic item visit_cyclic by blast
  next
    case False
    show ?thesis
    proof (cases "fetchManifest r")
      case (Inl f)
      then show ?thesis using fails item False visit_fetch_fails by blast
    next
      case (Inr m)
      obtain t' where "visit fetchManifest (r, visiting) t =
          Inr (map (\<lambda>d. (d, visiting @ [fst r])) (components m), t')"
        using False Inr visit_fetched [of r visiting fetchManifest m t] by blast
      moreover have "expand fetchManifest [item] =
          map (\<lambda>d. (d, visiting @ [fst r])) (components m)"
        using item Inr by (simp add: expand_def)
      ultimately show ?thesis using fetched item False Inr by blast
    qed
  qed
qed

lemma expand_Nil [simp]: "expand fetchManifest [] = []"
  by (simp add: expand_def)

lemma expand_Cons: "expand fetchManifest (item # items) =
    expand fetchManifest [item] @ expand fetchManifest items"
  by (simp add: expand_def)

lemma expand_funpow_Nil [simp]: "(expand fetchManifest ^^ k) [] = []"
  by (induction k) simp_all

text \<open>A level that is visited without failure has no revisit and yields its expansion.\<close>

lemma visit_level_ok:
  "visit_level fetchManifest level t = Inr (next, t') \<Longrightarrow>
   next = expand fetchManifest level \<and> (\<forall>item\<in>set level. fst (fst item) \<notin> set (snd item))"
proof (induction level arbitrary: t "next" t')
  case Nil
  then show ?case by simp
next
  case (Cons item items)
  show ?case
  proof (cases rule: visit_cases [where item = item and fetchManifest = fetchManifest and t = t])
    case (cyclic r visiting)
    then show ?thesis using Cons.prems by simp
  next
    case (fails r visiting f)
    then show ?thesis using Cons.prems by simp
  next
    case (fetched r visiting m t1)
    from Cons.prems fetched(4) obtain rest where
      rest: "visit_level fetchManifest items t1 = Inr (rest, t')"
      and nxt: "next = map (\<lambda>d. (d, visiting @ [fst r])) (components m) @ rest"
      by (auto split: sum.splits)
    from Cons.IH [OF rest] have "rest = expand fetchManifest items"
      and "\<forall>item\<in>set items. fst (fst item) \<notin> set (snd item)" by simp_all
    then show ?thesis
      using nxt fetched(1,2,5) expand_Cons [of fetchManifest item items] by simp
  qed
qed

text \<open>A level that fails does so at a revisit, or at a manifest that cannot be fetched.\<close>

lemma visit_level_fails:
  "visit_level fetchManifest level t = Inl f \<Longrightarrow>
   \<exists>r visiting. (r, visiting) \<in> set level \<and>
     (fst r \<in> set visiting \<and>
        f = CyclicDependency (dropWhile (\<lambda>n. n \<noteq> fst r) visiting @ [fst r]) \<or>
      fetchManifest r = Inl f)"
proof (induction level arbitrary: t)
  case Nil
  then show ?case by simp
next
  case (Cons item items)
  show ?case
  proof (cases rule: visit_cases [where item = item and fetchManifest = fetchManifest and t = t])
    case (cyclic r visiting)
    then have "f = CyclicDependency (dropWhile (\<lambda>n. n \<noteq> fst r) visiting @ [fst r])"
      using Cons.prems by simp
    then show ?thesis using cyclic(1,2)
      by (intro exI [of _ r] exI [of _ visiting]) simp
  next
    case (fails r visiting g)
    then have "f = g" using Cons.prems by simp
    then show ?thesis using fails(1,3)
      by (intro exI [of _ r] exI [of _ visiting]) simp
  next
    case (fetched r visiting m t1)
    then have "visit_level fetchManifest items t1 = Inl f"
      using Cons.prems by (auto split: sum.splits)
    from Cons.IH [OF this] obtain r' visiting' where
      "(r', visiting') \<in> set items"
      "fst r' \<in> set visiting' \<and>
        f = CyclicDependency (dropWhile (\<lambda>n. n \<noteq> fst r') visiting' @ [fst r']) \<or>
       fetchManifest r' = Inl f" by blast
    then show ?thesis
      by (intro exI [of _ r'] exI [of _ visiting']) simp
  qed
qed

lemma funpow_expand_Suc:
  "(expand fetchManifest ^^ Suc k) level = (expand fetchManifest ^^ k) (expand fetchManifest level)"
  by (simp add: funpow_swap1)

text \<open>A traversal that ends with a result met no revisit at any depth.\<close>

lemma traverse_ok_no_revisit:
  "traverse fetchManifest fuel level t = Some (Inr t') \<Longrightarrow>
   item \<in> set ((expand fetchManifest ^^ k) level) \<Longrightarrow> fst (fst item) \<notin> set (snd item)"
proof (induction fetchManifest fuel level t arbitrary: k rule: traverse.induct)
  case (1 fetchManifest fuel t)
  then show ?case by simp
next
  case (2 fetchManifest item items t)
  then show ?case by simp
next
  case (3 fetchManifest fuel i items t)
  from "3.prems"(1) obtain nxt t1 where
    lvl: "visit_level fetchManifest (i # items) t = Inr (nxt, t1)"
    and rest: "traverse fetchManifest fuel nxt t1 = Some (Inr t')"
    by (auto split: sum.splits)
  from visit_level_ok [OF lvl] have nxt: "nxt = expand fetchManifest (i # items)"
    and here: "\<forall>item\<in>set (i # items). fst (fst item) \<notin> set (snd item)" by simp_all
  show ?case
  proof (cases k)
    case 0
    then show ?thesis using here "3.prems"(2) by auto
  next
    case (Suc k')
    then have "item \<in> set ((expand fetchManifest ^^ k') nxt)"
      using "3.prems"(2) nxt funpow_expand_Suc [where fetchManifest = fetchManifest and k = k' and level = "i # items"] by simp
    then show ?thesis using "3.IH" [OF lvl refl rest] by blast
  qed
qed

text \<open>
  When every item at every depth can be fetched and some item at depth \<open>k\<close> revisits a
  name, the traversal with more than \<open>k\<close> units of fuel fails with the cycle of an item
  that it reached.
\<close>

lemma traverse_finds_cycle:
  assumes "\<And>j r visiting. (r, visiting) \<in> set ((expand fetchManifest ^^ j) level) \<Longrightarrow>
             \<exists>m. fetchManifest r = Inr m"
    and "item \<in> set ((expand fetchManifest ^^ k) level)" "fst (fst item) \<in> set (snd item)"
    and "k < fuel"
  shows "\<exists>j r visiting. (r, visiting) \<in> set ((expand fetchManifest ^^ j) level) \<and>
           fst r \<in> set visiting \<and>
           traverse fetchManifest fuel level t =
             Some (Inl (CyclicDependency (dropWhile (\<lambda>n. n \<noteq> fst r) visiting @ [fst r])))"
  using assms
proof (induction k arbitrary: level fuel t)
  case 0
  from "0.prems"(2) obtain i items where level: "level = i # items"
    by (cases level) auto
  from "0.prems"(4) obtain n where fuel: "fuel = Suc n" by (cases fuel) auto
  have "\<not> (\<exists>nxt t1. visit_level fetchManifest level t = Inr (nxt, t1))"
    using visit_level_ok "0.prems"(2,3) by fastforce
  then obtain f where f: "visit_level fetchManifest level t = Inl f"
    by (cases "visit_level fetchManifest level t") auto
  from visit_level_fails [OF f] obtain r visiting where
    rv: "(r, visiting) \<in> set level"
    "fst r \<in> set visiting \<and>
        f = CyclicDependency (dropWhile (\<lambda>n. n \<noteq> fst r) visiting @ [fst r]) \<or>
      fetchManifest r = Inl f" by blast
  have "\<exists>m. fetchManifest r = Inr m" using "0.prems"(1) [of r visiting 0] rv(1) by simp
  then have c: "fst r \<in> set visiting"
    "f = CyclicDependency (dropWhile (\<lambda>n. n \<noteq> fst r) visiting @ [fst r])"
    using rv(2) by auto
  have "traverse fetchManifest fuel level t = Some (Inl f)"
    using f level fuel by simp
  moreover have "(r, visiting) \<in> set ((expand fetchManifest ^^ 0) level)" using rv(1) by simp
  ultimately show ?case using c by blast
next
  case (Suc k)
  have "level \<noteq> []" using Suc.prems(2) by auto
  then obtain i items where level: "level = i # items" by (cases level) auto
  from Suc.prems(4) obtain n where fuel: "fuel = Suc n" and kn: "k < n" by (cases fuel) auto
  show ?case
  proof (cases "visit_level fetchManifest level t")
    case (Inl f)
    from visit_level_fails [OF Inl] obtain r visiting where
      rv: "(r, visiting) \<in> set level"
      "fst r \<in> set visiting \<and>
          f = CyclicDependency (dropWhile (\<lambda>n. n \<noteq> fst r) visiting @ [fst r]) \<or>
        fetchManifest r = Inl f" by blast
    have "\<exists>m. fetchManifest r = Inr m" using Suc.prems(1) [of r visiting 0] rv(1) by simp
    then have c: "fst r \<in> set visiting"
      "f = CyclicDependency (dropWhile (\<lambda>n. n \<noteq> fst r) visiting @ [fst r])"
      using rv(2) by auto
    have "traverse fetchManifest fuel level t = Some (Inl f)"
      using Inl level fuel by simp
    moreover have "(r, visiting) \<in> set ((expand fetchManifest ^^ 0) level)"
      using rv(1) by simp
    ultimately show ?thesis using c by blast
  next
    case (Inr res)
    obtain nxt t1 where res: "res = (nxt, t1)" by (cases res)
    have nxt: "nxt = expand fetchManifest level"
      using visit_level_ok Inr res by blast
    have fetchable: "\<exists>m. fetchManifest r = Inr m"
      if "(r, visiting) \<in> set ((expand fetchManifest ^^ j) nxt)" for j r visiting
      using Suc.prems(1) [of r visiting "Suc j"] that nxt
        funpow_expand_Suc [where fetchManifest = fetchManifest and k = j and level = "level"] by simp
    have "item \<in> set ((expand fetchManifest ^^ k) nxt)"
      using Suc.prems(2) nxt funpow_expand_Suc [where fetchManifest = fetchManifest and k = k and level = "level"] by simp
    then have "\<exists>j r visiting. (r, visiting) \<in> set ((expand fetchManifest ^^ j) nxt) \<and>
           fst r \<in> set visiting \<and>
           traverse fetchManifest n nxt t1 =
             Some (Inl (CyclicDependency (dropWhile (\<lambda>n. n \<noteq> fst r) visiting @ [fst r])))"
      using fetchable Suc.prems(3) kn by (intro Suc.IH) blast+
    then obtain j r visiting where
      found: "(r, visiting) \<in> set ((expand fetchManifest ^^ j) nxt)" "fst r \<in> set visiting"
      "traverse fetchManifest n nxt t1 =
         Some (Inl (CyclicDependency (dropWhile (\<lambda>n. n \<noteq> fst r) visiting @ [fst r])))"
      by blast
    have "(r, visiting) \<in> set ((expand fetchManifest ^^ Suc j) level)"
      using found(1) nxt funpow_expand_Suc [where fetchManifest = fetchManifest and k = j and level = "level"] by simp
    moreover have "traverse fetchManifest fuel level t =
         Some (Inl (CyclicDependency (dropWhile (\<lambda>n. n \<noteq> fst r) visiting @ [fst r])))"
      using found(3) Inr res level fuel by simp
    ultimately show ?thesis using found(2) by blast
  qed
qed

lemma in_expand_single:
  "(x \<in> set (expand fetchManifest [(r, visiting)])) =
     (\<exists>m d. fetchManifest r = Inr m \<and> d \<in> set (components m) \<and> x = (d, visiting @ [fst r]))"
  by (cases "fetchManifest r") (auto simp: expand_def)

lemma in_expand:
  "(x \<in> set (expand fetchManifest level)) =
     (\<exists>item\<in>set level. x \<in> set (expand fetchManifest [item]))"
proof (induction level)
  case Nil
  then show ?case by simp
next
  case (Cons item items)
  have "(x \<in> set (expand fetchManifest (item # items))) =
        (x \<in> set (expand fetchManifest [item]) \<or> x \<in> set (expand fetchManifest items))"
    using expand_Cons [of fetchManifest item items] by simp
  then show ?case using Cons.IH by simp
qed

lemma expand_mono:
  "item \<in> set level \<Longrightarrow> x \<in> set (expand fetchManifest [item]) \<Longrightarrow>
   x \<in> set (expand fetchManifest level)"
  using in_expand [of x fetchManifest level] by blast

text \<open>The items of the levels are the trails of the graph.\<close>

lemma trail_in_level:
  "trail fetchManifest rootRef visiting r \<Longrightarrow>
   (r, visiting) \<in> set ((expand fetchManifest ^^ length visiting) [(rootRef, [])])"
proof (induction rule: trail.induct)
  case start
  then show ?case by simp
next
  case (step visiting r m d)
  have "(d, visiting @ [fst r]) \<in> set (expand fetchManifest [(r, visiting)])"
    using step.hyps(2,3) in_expand_single [of "(d, visiting @ [fst r])" fetchManifest r visiting]
    by blast
  then have "(d, visiting @ [fst r]) \<in>
      set (expand fetchManifest ((expand fetchManifest ^^ length visiting) [(rootRef, [])]))"
    using step.IH expand_mono by blast
  then show ?case by simp
qed

lemma expand_trails:
  assumes "\<forall>item\<in>set level. trail fetchManifest rootRef (snd item) (fst item)"
  shows "\<forall>item\<in>set (expand fetchManifest level). trail fetchManifest rootRef (snd item) (fst item)"
proof
  fix item
  assume "item \<in> set (expand fetchManifest level)"
  then obtain i where i: "i \<in> set level" "item \<in> set (expand fetchManifest [i])"
    using in_expand [of item fetchManifest level] by blast
  obtain r visiting where "i = (r, visiting)" by (cases i)
  then have rv: "(r, visiting) \<in> set level"
    "item \<in> set (expand fetchManifest [(r, visiting)])"
    using i by simp_all
  from rv(2) obtain m d where d: "fetchManifest r = Inr m" "d \<in> set (components m)"
    "item = (d, visiting @ [fst r])"
    using in_expand_single [of item fetchManifest r visiting] by blast
  have "trail fetchManifest rootRef visiting r" using assms rv(1) by auto
  then have "trail fetchManifest rootRef (visiting @ [fst r]) d"
    using d(1,2) by (rule trail.step)
  then show "trail fetchManifest rootRef (snd item) (fst item)" using d(3) by simp
qed

lemma level_trails:
  "item \<in> set ((expand fetchManifest ^^ k) [(rootRef, [])]) \<Longrightarrow>
   trail fetchManifest rootRef (snd item) (fst item)"
proof (induction k arbitrary: item)
  case 0
  then show ?case by (simp add: trail.start)
next
  case (Suc k)
  have "\<forall>item\<in>set ((expand fetchManifest ^^ k) [(rootRef, [])]).
      trail fetchManifest rootRef (snd item) (fst item)"
    using Suc.IH by blast
  from expand_trails [OF this] show ?case using Suc.prems by simp
qed

lemma trail_fetchable:
  assumes "complete fetchManifest" "fetchManifest rootRef = Inr m0"
  shows "trail fetchManifest rootRef visiting r \<Longrightarrow> \<exists>m. fetchManifest r = Inr m"
proof (induction rule: trail.induct)
  case start
  then show ?case using assms(2) by blast
next
  case (step visiting r m d)
  then show ?case using assms(1) unfolding complete_def by blast
qed

lemma trail_successively:
  "trail fetchManifest rootRef visiting r \<Longrightarrow>
   successively (depends fetchManifest) (visiting @ [fst r])"
proof (induction rule: trail.induct)
  case start
  then show ?case by simp
next
  case (step visiting r m d)
  have "depends fetchManifest (fst r) (fst d)"
    using step.hyps(2,3) unfolding depends_def by blast
  then show ?case using step.IH by (simp add: successively_append_iff)
qed

lemma reported_cycle:
  assumes "trail fetchManifest rootRef visiting r" "fst r \<in> set visiting"
  shows "2 \<le> length (dropWhile (\<lambda>n. n \<noteq> fst r) visiting @ [fst r])"
    "hd (dropWhile (\<lambda>n. n \<noteq> fst r) visiting @ [fst r]) = fst r"
    "last (dropWhile (\<lambda>n. n \<noteq> fst r) visiting @ [fst r]) = fst r"
    "successively (depends fetchManifest) (dropWhile (\<lambda>n. n \<noteq> fst r) visiting @ [fst r])"
proof -
  let ?d = "dropWhile (\<lambda>n. n \<noteq> fst r) visiting"
  have ne: "?d \<noteq> []" using assms(2) by (auto simp: dropWhile_eq_Nil_conv)
  then show "2 \<le> length (?d @ [fst r])" by (cases ?d) simp_all
  show "hd (?d @ [fst r]) = fst r" using ne hd_dropWhile [OF ne] by simp
  show "last (?d @ [fst r]) = fst r" by simp
  have "takeWhile (\<lambda>n. n \<noteq> fst r) visiting @ (?d @ [fst r]) = visiting @ [fst r]"
    by (simp only: append_assoc [symmetric] takeWhile_dropWhile_id)
  then have "successively (depends fetchManifest)
      (takeWhile (\<lambda>n. n \<noteq> fst r) visiting @ (?d @ [fst r]))"
    using trail_successively [OF assms(1)] by (simp only:)
  then show "successively (depends fetchManifest) (?d @ [fst r])"
    unfolding successively_append_iff [of _ "takeWhile (\<lambda>n. n \<noteq> fst r) visiting"] by blast
qed

lemma resolve_result_traverse:
  "resolve_dependencies fetchManifest combine fuel rootRef = Some (Inr result) \<Longrightarrow>
   \<exists>t. traverse fetchManifest fuel [(rootRef, [])] \<lparr>arena = [], resolved = [], warnings = []\<rparr> =
     Some (Inr t)"
  by (auto simp: resolve_dependencies_def split: option.splits sum.splits)

lemma resolve_failure:
  "traverse fetchManifest fuel [(rootRef, [])] \<lparr>arena = [], resolved = [], warnings = []\<rparr> =
     Some (Inl f) \<Longrightarrow>
   resolve_dependencies fetchManifest combine fuel rootRef = Some (Inl f)"
  by (simp add: resolve_dependencies_def)

section \<open>A failed promotion leaves the disk as it was\<close>

lemma stage_other: "p \<notin> set (map tempPath staged) \<Longrightarrow> stage staged disk p = disk p"
  by (induction staged arbitrary: disk) auto

lemma discard_apply:
  "discard staged disk p = (if p \<in> set (map tempPath staged) then None else disk p)"
  by (induction staged arbitrary: disk) auto

lemma rollback_cong:
  "d1 p = d2 p \<Longrightarrow> rollback journal d1 p = rollback journal d2 p"
proof (induction journal arbitrary: d1 d2)
  case Nil
  then show ?case by simp
next
  case (Cons e journal)
  obtain target prior where e: "e = (target, prior)" by (cases e)
  have "(d1(target := prior)) p = (d2(target := prior)) p" using Cons.prems by simp
  then have "rollback journal (d1(target := prior)) p = rollback journal (d2(target := prior)) p"
    by (rule Cons.IH)
  then show ?case using e by simp
qed

lemma rollback_other:
  "p \<notin> fst ` set journal \<Longrightarrow> rollback journal disk p = disk p"
proof (induction journal arbitrary: disk)
  case Nil
  then show ?case by simp
next
  case (Cons e journal)
  obtain target prior where e: "e = (target, prior)" by (cases e)
  then have p: "p \<noteq> target" "p \<notin> fst ` set journal" using Cons.prems by auto
  have "rollback journal (disk(target := prior)) p = (disk(target := prior)) p"
    using p(2) by (rule Cons.IH)
  then show ?case using e p(1) by simp
qed

text \<open>
  The invariant of promotion: rolling the journal back gives, outside the temporary
  paths, the disk from before the transaction. When some rename fails, promotion fails,
  the disk outside the temporary paths is the one from before, and nothing is left at a
  temporary path that was empty or still staged.
\<close>

lemma promote_fails_restores:
  assumes "\<exists>s\<in>set staged. \<not> renames s"
    and "\<forall>p. p \<notin> temps \<longrightarrow> rollback journal disk p = before p"
    and "fst ` set journal \<subseteq> targets" "targetPath ` set staged \<subseteq> targets"
    and "tempPath ` set staged \<subseteq> temps" "temps \<inter> targets = {}"
  shows "(\<exists>f. fst (promote renames staged journal disk) = Inl f) \<and>
         (\<forall>p. p \<notin> temps \<longrightarrow> snd (promote renames staged journal disk) p = before p) \<and>
         (\<forall>p\<in>temps. disk p = None \<or> p \<in> tempPath ` set staged \<longrightarrow>
            snd (promote renames staged journal disk) p = None)"
  using assms
proof (induction staged arbitrary: journal disk)
  case Nil
  then show ?case by simp
next
  case (Cons s staged)
  have t: "targetPath s \<in> targets" "tempPath s \<in> temps" "tempPath s \<notin> targets"
    "targetPath s \<notin> temps"
    using Cons.prems(4,5,6) by auto
  show ?case
  proof (cases "renames s")
    case False
    let ?final = "discard (s # staged) (rollback journal disk)"
    have final: "promote renames (s # staged) journal disk =
        (Inl (PromotionFailure (targetPath s)), ?final)"
      using False by simp
    have outside: "?final p = before p" if "p \<notin> temps" for p
    proof -
      have "p \<notin> set (map tempPath (s # staged))" using that Cons.prems(5) by auto
      then have "?final p = rollback journal disk p" by (simp only: discard_apply if_False)
      then show ?thesis using Cons.prems(2) that by simp
    qed
    have inside: "?final p = None"
      if "p \<in> temps" "disk p = None \<or> p \<in> tempPath ` set (s # staged)" for p
    proof (cases "p \<in> set (map tempPath (s # staged))")
      case True
      then show ?thesis by (simp only: discard_apply if_True)
    next
      case False
      then have "disk p = None" using that(2) by auto
      moreover have "p \<notin> fst ` set journal" using that(1) Cons.prems(3,6) by auto
      ultimately have "rollback journal disk p = None" by (simp add: rollback_other)
      then show ?thesis using False by (simp only: discard_apply if_False)
    qed
    show ?thesis unfolding final using outside inside by simp
  next
    case True
    let ?disk = "disk(targetPath s := disk (tempPath s), tempPath s := None)"
    let ?journal = "(targetPath s, disk (targetPath s)) # journal"
    have undo: "rollback ?journal ?disk p = before p" if "p \<notin> temps" for p
    proof -
      have "p \<noteq> tempPath s" using that t(2) by auto
      then have "(?disk(targetPath s := disk (targetPath s))) p = disk p" by simp
      then have "rollback journal (?disk(targetPath s := disk (targetPath s))) p =
          rollback journal disk p"
        by (rule rollback_cong)
      then show ?thesis using Cons.prems(2) that by simp
    qed
    define q where "q = promote renames staged ?journal ?disk"
    have step: "promote renames (s # staged) journal disk = q"
      using True by (simp add: q_def)
    have ih: "(\<exists>f. fst (promote renames staged ?journal ?disk) = Inl f) \<and>
         (\<forall>p. p \<notin> temps \<longrightarrow> snd (promote renames staged ?journal ?disk) p = before p) \<and>
         (\<forall>p\<in>temps. ?disk p = None \<or> p \<in> tempPath ` set staged \<longrightarrow>
            snd (promote renames staged ?journal ?disk) p = None)"
    proof (rule Cons.IH)
      show "\<exists>s\<in>set staged. \<not> renames s" using Cons.prems(1) True by auto
      show "\<forall>p. p \<notin> temps \<longrightarrow> rollback ?journal ?disk p = before p" using undo by blast
      show "fst ` set ?journal \<subseteq> targets" using Cons.prems(3) t(1) by auto
      show "targetPath ` set staged \<subseteq> targets" using Cons.prems(4) by auto
      show "tempPath ` set staged \<subseteq> temps" using Cons.prems(5) by auto
      show "temps \<inter> targets = {}" by (rule Cons.prems(6))
    qed
    have pre: "?disk p = None \<or> p \<in> tempPath ` set staged"
      if "p \<in> temps" "disk p = None \<or> p \<in> tempPath ` set (s # staged)" for p
      using that t(4) by (cases "p = tempPath s") auto
    have a: "\<exists>f. fst q = Inl f"
      unfolding q_def using ih by (rule conjunct1)
    have b: "\<forall>p. p \<notin> temps \<longrightarrow> snd q p = before p"
      unfolding q_def using ih by (rule conjunct1 [OF conjunct2])
    have c0: "\<forall>p\<in>temps. ?disk p = None \<or> p \<in> tempPath ` set staged \<longrightarrow> snd q p = None"
      unfolding q_def using ih by (rule conjunct2 [OF conjunct2])
    have c: "\<forall>p\<in>temps. disk p = None \<or> p \<in> tempPath ` set (s # staged) \<longrightarrow> snd q p = None"
    proof (intro ballI impI)
      fix p
      assume p: "p \<in> temps" "disk p = None \<or> p \<in> tempPath ` set (s # staged)"
      then have "?disk p = None \<or> p \<in> tempPath ` set staged" by (rule pre)
      moreover have "?disk p = None \<or> p \<in> tempPath ` set staged \<longrightarrow> snd q p = None"
        using c0 p(1) by (rule bspec)
      ultimately show "snd q p = None" by (rule rev_mp)
    qed
    show ?thesis unfolding step by (intro conjI) (rule a, rule b, rule c)
  qed
qed

lemma install_fails_restores:
  assumes "fresh_temps staged disk" "\<exists>s\<in>set staged. \<not> renames s"
  shows "(\<exists>f. fst (install renames force staged disk) = Inl f) \<and>
         snd (install renames force staged disk) = disk"
proof (cases "filter (\<lambda>p. disk p \<noteq> None) (map targetPath staged) \<noteq> [] \<and> \<not> force")
  case True
  then show ?thesis by (simp add: install_def Let_def)
next
  case False
  let ?temps = "tempPath ` set staged"
  let ?targets = "targetPath ` set staged"
  let ?p = "promote renames staged [] (stage staged disk)"
  have inst: "install renames force staged disk = ?p"
    using False by (auto simp: install_def Let_def)
  have fresh: "\<forall>s\<in>set staged. disk (tempPath s) = None" "?temps \<inter> ?targets = {}"
    using assms(1) by (auto simp: fresh_temps_def list_all_iff)
  have res: "(\<exists>f. fst ?p = Inl f) \<and> (\<forall>p. p \<notin> ?temps \<longrightarrow> snd ?p p = disk p) \<and>
        (\<forall>p\<in>?temps. stage staged disk p = None \<or> p \<in> tempPath ` set staged \<longrightarrow>
            snd ?p p = None)"
  proof (rule promote_fails_restores [where targets = ?targets])
    show "\<exists>s\<in>set staged. \<not> renames s" by (rule assms(2))
    show "\<forall>p. p \<notin> ?temps \<longrightarrow> rollback [] (stage staged disk) p = disk p"
      by (simp add: stage_other)
    show "fst ` set [] \<subseteq> ?targets" by simp
    show "?targets \<subseteq> ?targets" by simp
    show "?temps \<subseteq> ?temps" by simp
    show "?temps \<inter> ?targets = {}" by (rule fresh(2))
  qed
  from res have f: "\<exists>f. fst ?p = Inl f" by (rule conjunct1)
  from res have out: "\<forall>p. p \<notin> ?temps \<longrightarrow> snd ?p p = disk p"
    by (rule conjunct1 [OF conjunct2])
  from res have tmp: "\<forall>p\<in>?temps. stage staged disk p = None \<or> p \<in> tempPath ` set staged \<longrightarrow>
            snd ?p p = None"
    by (rule conjunct2 [OF conjunct2])
  have "snd ?p p = disk p" for p
  proof (cases "p \<in> ?temps")
    case True
    then have "snd ?p p = None" using tmp by auto
    moreover have "disk p = None" using True fresh(1) by auto
    ultimately show ?thesis by simp
  next
    case False
    then show ?thesis using out by simp
  qed
  then have "snd ?p = disk" by (rule ext)
  then show ?thesis using f inst by simp
qed

lemma promote_failure:
  "fst (promote renames staged journal disk) =
     (case find (\<lambda>s. \<not> renames s) staged of
        None \<Rightarrow> Inr ()
      | Some s \<Rightarrow> Inl (PromotionFailure (targetPath s)))"
  by (induction staged arbitrary: journal disk) simp_all

lemma install_forced:
  "fst (install renames True staged disk) =
     (case find (\<lambda>s. \<not> renames s) staged of
        None \<Rightarrow> Inr ()
      | Some s \<Rightarrow> Inl (PromotionFailure (targetPath s)))"
  by (simp add: install_def promote_failure)

section \<open>The claims\<close>

text \<open>
  C10, amended. Whenever \<open>write(path, content)\<close> succeeds, \<open>read(path)\<close> on the file
  system it leaves returns \<open>content\<close>. \<open>write\<close> never rejects with ENOENT: missing
  parent directories are made. It succeeds exactly when the path is writable: the joined
  path and its parent are accepted (no null byte, short enough), it does not end in a
  slash, no name on it is
  longer than \<open>NAME_MAX\<close>, and either nothing is at the path, with nothing but
  directories on the way, or a regular file is there, which is replaced. It rejects
  with EISDIR when the path is a directory, with ENOTDIR or EEXIST when a regular file
  stands on the way, and with ENAMETOOLONG when a name on the path is too long.
\<close>

theorem storage_write_read_roundtrip:
  "(fst (storage_write rootDir fs path content) = Inr () \<longrightarrow>
      storage_read rootDir (snd (storage_write rootDir fs path content)) path = Inr content) \<and>
   fst (storage_write rootDir fs path content) \<noteq> Inl ENOENT \<and>
   (fst (storage_write rootDir fs path content) = Inr ()) = writable rootDir fs path \<and>
   (\<forall>es. node_at rootDir fs path = Inr (Dir es) \<and>
      path_error (join (join rootDir path) ''..'') = None \<longrightarrow>
      fst (storage_write rootDir fs path content) = Inl EISDIR) \<and>
   (node_at rootDir fs path = Inl ENOTDIR \<and>
      path_error (join (join rootDir path) ''..'') = None \<longrightarrow>
      fst (storage_write rootDir fs path content) = Inl ENOTDIR \<or>
      fst (storage_write rootDir fs path content) = Inl EEXIST) \<and>
   (paths_fit rootDir path \<and> \<not> trailingSeparator (join rootDir path) \<and>
      (node_at rootDir fs path = Inl ENAMETOOLONG \<or>
       node_at rootDir fs path = Inl ENOENT \<and>
       \<not> list_all (\<lambda>s. length s \<le> NAME_MAX) (resolve (cwd fs) (join rootDir path))) \<longrightarrow>
      fst (storage_write rootDir fs path content) = Inl ENAMETOOLONG)"
proof (intro conjI allI impI)
  assume "fst (storage_write rootDir fs path content) = Inr ()"
  then show "storage_read rootDir (snd (storage_write rootDir fs path content)) path =
      Inr content"
    by (rule storage_write_then_read)
next
  show "fst (storage_write rootDir fs path content) \<noteq> Inl ENOENT"
    by (rule storage_write_not_enoent)
next
  show "(fst (storage_write rootDir fs path content) = Inr ()) = writable rootDir fs path"
    by (rule storage_write_writable)
next
  fix es
  assume a: "node_at rootDir fs path = Inr (Dir es) \<and>
      path_error (join (join rootDir path) ''..'') = None"
  from a have "node_at rootDir fs path = Inr (Dir es)" by (rule conjunct1)
  moreover from a have "path_error (join (join rootDir path) ''..'') = None"
    by (rule conjunct2)
  ultimately show "fst (storage_write rootDir fs path content) = Inl EISDIR"
    by (rule storage_write_directory)
next
  assume a: "node_at rootDir fs path = Inl ENOTDIR \<and>
      path_error (join (join rootDir path) ''..'') = None"
  from a have "node_at rootDir fs path = Inl ENOTDIR" by (rule conjunct1)
  moreover from a have "path_error (join (join rootDir path) ''..'') = None"
    by (rule conjunct2)
  ultimately show "fst (storage_write rootDir fs path content) = Inl ENOTDIR \<or>
      fst (storage_write rootDir fs path content) = Inl EEXIST"
    by (rule storage_write_blocked)
next
  assume a: "paths_fit rootDir path \<and> \<not> trailingSeparator (join rootDir path) \<and>
      (node_at rootDir fs path = Inl ENAMETOOLONG \<or>
       node_at rootDir fs path = Inl ENOENT \<and>
       \<not> list_all (\<lambda>s. length s \<le> NAME_MAX) (resolve (cwd fs) (join rootDir path)))"
  from a have fit: "paths_fit rootDir path" by (rule conjunct1)
  from a have plain: "\<not> trailingSeparator (join rootDir path)"
    by (rule conjunct1 [OF conjunct2])
  from a have "node_at rootDir fs path = Inl ENAMETOOLONG \<or>
       node_at rootDir fs path = Inl ENOENT \<and>
       \<not> list_all (\<lambda>s. length s \<le> NAME_MAX) (resolve (cwd fs) (join rootDir path))"
    by (rule conjunct2 [OF conjunct2])
  with fit plain show "fst (storage_write rootDir fs path content) = Inl ENAMETOOLONG"
    by (rule storage_write_long_name)
qed

theorem storage_write_read_roundtrip_witness:
  "writable registry_root empty_fs ''components/test-button/1.0.0/component.json'' \<and>
   storage_read registry_root
     (snd (storage_write registry_root empty_fs ''components/test-button/1.0.0/component.json''
          (JsonText test_button)))
     ''components/test-button/1.0.0/component.json'' = Inr (JsonText test_button) \<and>
   node_at registry_root published_fs ''components/test-button/1.0.0/component.json'' =
     Inr (File (JsonText test_button)) \<and>
   writable registry_root published_fs ''components/test-button/1.0.0/component.json'' \<and>
   storage_read registry_root
     (snd (storage_write registry_root published_fs
          ''components/test-button/1.0.0/component.json'' (Bytes ''replaced'')))
     ''components/test-button/1.0.0/component.json'' = Inr (Bytes ''replaced'') \<and>
   node_at registry_root published_fs ''components/test-button'' =
     Inr (Dir (ECons ''1.0.0''
       (Dir (ECons ''component.json'' (File (JsonText test_button)) ENil)) ENil)) \<and>
   fst (storage_write registry_root published_fs ''components/test-button'' (Bytes ''data'')) =
     Inl EISDIR \<and>
   node_at registry_root published_fs
     ''components/test-button/1.0.0/component.json/x/y'' = Inl ENOTDIR \<and>
   fst (storage_write registry_root published_fs
     ''components/test-button/1.0.0/component.json/x/y'' (Bytes ''data'')) = Inl ENOTDIR \<and>
   fst (storage_write registry_root published_fs
     ''components/test-button/1.0.0/component.json/x'' (Bytes ''data'')) = Inl EEXIST \<and>
   node_at registry_root published_fs (''components/'' @ long_name) = Inl ENAMETOOLONG \<and>
   \<not> writable registry_root published_fs (''components/'' @ long_name) \<and>
   fst (storage_write registry_root published_fs (''components/'' @ long_name) (Bytes ''data'')) =
     Inl ENAMETOOLONG \<and>
   \<not> writable registry_root published_fs (''components/'' @ null_name) \<and>
   fst (storage_write registry_root published_fs (''components/'' @ null_name) (Bytes ''data'')) \<noteq>
     Inr ()"
proof -
  let ?manifest = "''components/test-button/1.0.0/component.json''"
  have fresh: "writable registry_root empty_fs ?manifest" by code_simp
  have isfile: "node_at registry_root published_fs ?manifest = Inr (File (JsonText test_button))"
    by code_simp
  have over: "writable registry_root published_fs ?manifest" by code_simp
  have dir: "node_at registry_root published_fs ''components/test-button'' =
     Inr (Dir (ECons ''1.0.0''
       (Dir (ECons ''component.json'' (File (JsonText test_button)) ENil)) ENil))"
    by code_simp
  have parent: "path_error (join (join registry_root ''components/test-button'') ''..'') = None"
    "path_error (join (join registry_root ''components/test-button/1.0.0/component.json/x/y'')
       ''..'') = None"
    by code_simp+
  have blocked: "node_at registry_root published_fs
     ''components/test-button/1.0.0/component.json/x/y'' = Inl ENOTDIR"
    by code_simp
  have direct: "fst (storage_write registry_root published_fs
     ''components/test-button/1.0.0/component.json/x'' (Bytes ''data'')) = Inl EEXIST"
    by code_simp
  have deeper: "fst (storage_write registry_root published_fs
     ''components/test-button/1.0.0/component.json/x/y'' (Bytes ''data'')) \<noteq> Inl EEXIST"
    by code_simp
  have long: "node_at registry_root published_fs (''components/'' @ long_name) =
      Inl ENAMETOOLONG"
    "paths_fit registry_root (''components/'' @ long_name)"
    "\<not> trailingSeparator (join registry_root (''components/'' @ long_name))"
    "\<not> writable registry_root published_fs (''components/'' @ long_name)"
    by code_simp+
  note made = storage_write_read_roundtrip [of registry_root empty_fs ?manifest
      "JsonText test_button"]
  note replaced = storage_write_read_roundtrip [of registry_root published_fs ?manifest
      "Bytes ''replaced''"]
  note onto_dir = storage_write_read_roundtrip [of registry_root published_fs
      "''components/test-button''" "Bytes ''data''"]
  note below_file = storage_write_read_roundtrip [of registry_root published_fs
      "''components/test-button/1.0.0/component.json/x/y''" "Bytes ''data''"]
  note too_long = storage_write_read_roundtrip [of registry_root published_fs
      "''components/'' @ long_name" "Bytes ''data''"]
  have r1: "storage_read registry_root
     (snd (storage_write registry_root empty_fs ?manifest (JsonText test_button))) ?manifest =
     Inr (JsonText test_button)"
    using made fresh by blast
  have r2: "storage_read registry_root
     (snd (storage_write registry_root published_fs ?manifest (Bytes ''replaced''))) ?manifest =
     Inr (Bytes ''replaced'')"
    using replaced over by blast
  have r3: "fst (storage_write registry_root published_fs ''components/test-button''
      (Bytes ''data'')) = Inl EISDIR"
    using onto_dir dir parent(1) by blast
  have r4: "fst (storage_write registry_root published_fs
     ''components/test-button/1.0.0/component.json/x/y'' (Bytes ''data'')) = Inl ENOTDIR"
    using below_file blocked parent(2) deeper by blast
  have r5: "fst (storage_write registry_root published_fs (''components/'' @ long_name)
      (Bytes ''data'')) = Inl ENAMETOOLONG"
    using too_long long(1,2,3) by blast
  have null: "\<not> writable registry_root published_fs (''components/'' @ null_name)"
    by code_simp
  have r6: "fst (storage_write registry_root published_fs (''components/'' @ null_name)
      (Bytes ''data'')) \<noteq> Inr ()"
    using storage_write_read_roundtrip [of registry_root published_fs
        "''components/'' @ null_name" "Bytes ''data''"] null
    by blast
  show ?thesis
    by (intro conjI)
      (rule fresh r1 isfile over r2 dir r3 blocked r4 direct long(1) long(4) r5 null r6)+
qed

text \<open>
  C10 as stated fails: with \<open>components\<close> a directory of the storage, \<open>write\<close> to the
  path \<open>components\<close> rejects with EISDIR, and \<open>read\<close> of that path rejects as well.
\<close>

theorem storage_write_directory_counterexample:
  "fst (storage_write registry_root published_fs ''components'' (Bytes ''data'')) = Inl EISDIR \<and>
   storage_read registry_root
     (snd (storage_write registry_root published_fs ''components'' (Bytes ''data'')))
     ''components'' = Inl EISDIR"
  by code_simp

text \<open>
  C9, amended. \<open>list(prefix)\<close> returns the empty list when the storage finds nothing at
  the prefix (ENOENT is swallowed) and rejects with any other error of the file system,
  so also when the prefix is a regular file (ENOTDIR). When the prefix is a directory,
  with well-formed content, it returns one path for every entry that the directory
  reaches and that is within reach of \<open>readdir\<close>, at any depth, regular file or
  directory, and no other path. The path is what \<open>relative\<close> makes of the entry joined
  to the prefix and the root. For a prefix that stays below the root that is the
  entry's path behind the segments left of the prefix after normalising, a different
  path for each entry; for a prefix in normal form it is the prefix itself, a slash,
  and the entry's path.
\<close>

theorem storage_list_entries:
  "(node_at rootDir fs prefix = Inl ENOENT \<longrightarrow> storage_list rootDir fs prefix = Inr []) \<and>
   (\<forall>e. node_at rootDir fs prefix = Inl e \<and> e \<noteq> ENOENT \<longrightarrow>
      storage_list rootDir fs prefix = Inl e) \<and>
   (\<forall>c. node_at rootDir fs prefix = Inr (File c) \<longrightarrow>
      storage_list rootDir fs prefix = Inl ENOTDIR) \<and>
   (\<forall>es. node_at rootDir fs prefix = Inr (Dir es) \<and> wf_entries es \<longrightarrow>
      (\<exists>entries.
         distinct entries \<and>
         (\<forall>ss. (ss \<in> set entries) =
            (ss \<noteq> [] \<and> reaches (Dir es) ss \<and> within_reach (join rootDir prefix) ss)) \<and>
         storage_list rootDir fs prefix =
           Inr (map (\<lambda>ss. relative (cwd fs) rootDir
                          (join rootDir (join prefix (join_sep ss)))) entries) \<and>
         (below_root rootDir prefix \<longrightarrow>
            storage_list rootDir fs prefix =
              Inr (map (\<lambda>ss. join_sep (normalizeString True (split_sep prefix) @ ss)) entries) \<and>
            distinct (map (\<lambda>ss. join_sep (normalizeString True (split_sep prefix) @ ss))
                        entries)) \<and>
         (normal_path prefix \<longrightarrow>
            storage_list rootDir fs prefix =
              Inr (map (\<lambda>ss. prefix @ ''/'' @ join_sep ss) entries))))"
proof (intro conjI allI impI)
  assume "node_at rootDir fs prefix = Inl ENOENT"
  then show "storage_list rootDir fs prefix = Inr []" by (rule storage_list_missing)
next
  fix e
  assume "node_at rootDir fs prefix = Inl e \<and> e \<noteq> ENOENT"
  then show "storage_list rootDir fs prefix = Inl e" by (simp add: storage_list_error)
next
  fix c
  assume "node_at rootDir fs prefix = Inr (File c)"
  then show "storage_list rootDir fs prefix = Inl ENOTDIR" by (rule storage_list_file)
next
  fix es
  assume a: "node_at rootDir fs prefix = Inr (Dir es) \<and> wf_entries es"
  then have dir: "node_at rootDir fs prefix = Inr (Dir es)" and wf: "wf_entries es"
    by simp_all
  let ?entries = "walk (join rootDir prefix) es"
  let ?ps = "normalizeString True (split_sep prefix)"
  have below: "storage_list rootDir fs prefix =
      Inr (map (\<lambda>ss. join_sep (?ps @ ss)) ?entries)"
    if "below_root rootDir prefix"
    using dir wf that by (rule storage_list_below)
  have normal: "storage_list rootDir fs prefix =
      Inr (map (\<lambda>ss. prefix @ ''/'' @ join_sep ss) ?entries)"
    if n: "normal_path prefix"
  proof -
    have "join_sep (?ps @ ss) = prefix @ ''/'' @ join_sep ss" if "ss \<in> set ?entries" for ss
    proof -
      have "ss \<noteq> []" using wf that by (rule walk_proper(1))
      then show ?thesis using normal_path_below_root(2,3) [OF n] by simp
    qed
    then show ?thesis using below [OF normal_path_below_root(1) [OF n]] by simp
  qed
  show "\<exists>entries.
         distinct entries \<and>
         (\<forall>ss. (ss \<in> set entries) =
            (ss \<noteq> [] \<and> reaches (Dir es) ss \<and> within_reach (join rootDir prefix) ss)) \<and>
         storage_list rootDir fs prefix =
           Inr (map (\<lambda>ss. relative (cwd fs) rootDir
                          (join rootDir (join prefix (join_sep ss)))) entries) \<and>
         (below_root rootDir prefix \<longrightarrow>
            storage_list rootDir fs prefix =
              Inr (map (\<lambda>ss. join_sep (?ps @ ss)) entries) \<and>
            distinct (map (\<lambda>ss. join_sep (?ps @ ss)) entries)) \<and>
         (normal_path prefix \<longrightarrow>
            storage_list rootDir fs prefix =
              Inr (map (\<lambda>ss. prefix @ ''/'' @ join_sep ss) entries))"
  proof (intro exI [of _ ?entries] conjI allI impI)
    show "distinct ?entries" using wf by (rule walk_distinct)
    show "(ss \<in> set ?entries) =
        (ss \<noteq> [] \<and> reaches (Dir es) ss \<and> within_reach (join rootDir prefix) ss)" for ss
      using wf by (rule walk_mem)
    show "storage_list rootDir fs prefix =
        Inr (map (\<lambda>ss. relative (cwd fs) rootDir
                       (join rootDir (join prefix (join_sep ss)))) ?entries)"
      using dir wf by (rule storage_list_dir)
    show "storage_list rootDir fs prefix = Inr (map (\<lambda>ss. join_sep (?ps @ ss)) ?entries)"
      if "below_root rootDir prefix"
      using that by (rule below)
    show "distinct (map (\<lambda>ss. join_sep (?ps @ ss)) ?entries)"
      if "below_root rootDir prefix"
      using wf that by (rule storage_list_below_distinct)
    show "storage_list rootDir fs prefix =
        Inr (map (\<lambda>ss. prefix @ ''/'' @ join_sep ss) ?entries)"
      if "normal_path prefix"
      using that by (rule normal)
  qed
qed

theorem storage_list_entries_witness:
  "node_at registry_root listing_fs ''components'' = Inr (Dir components_entries) \<and>
   wf_entries components_entries \<and> normal_path ''components'' \<and>
   (\<exists>entries.
      distinct entries \<and>
      [''input'', ''index.ts''] \<in> set entries \<and> [''button''] \<in> set entries \<and>
      [''button'', ''index.tsx''] \<notin> set entries \<and>
      storage_list registry_root listing_fs ''components'' =
        Inr (map (\<lambda>ss. ''components'' @ ''/'' @ join_sep ss) entries)) \<and>
   (\<exists>paths.
      storage_list registry_root listing_fs ''components'' = Inr paths \<and>
      length paths = 5 \<and>
      set paths = {''components/button'', ''components/input'', ''components/input/index.ts'',
        ''components/button/index.ts'', ''components/button/style.css''}) \<and>
   node_at registry_root listing_fs ''components/radio'' = Inl ENOENT \<and>
   storage_list registry_root listing_fs ''components/radio'' = Inr [] \<and>
   node_at registry_root listing_fs ''components/input/index.ts/x'' = Inl ENOTDIR \<and>
   storage_list registry_root listing_fs ''components/input/index.ts/x'' = Inl ENOTDIR \<and>
   node_at registry_root listing_fs (''components/'' @ long_name) = Inl ENAMETOOLONG \<and>
   storage_list registry_root listing_fs (''components/'' @ long_name) = Inl ENAMETOOLONG \<and>
   node_at registry_root listing_fs ''components/input/index.ts'' =
     Inr (File (Bytes ''test content'')) \<and>
   storage_list registry_root listing_fs ''components/input/index.ts'' = Inl ENOTDIR"
proof -
  have dir: "node_at registry_root listing_fs ''components'' = Inr (Dir components_entries)"
    by code_simp
  have wf: "wf_entries components_entries" by code_simp
  have normal: "normal_path ''components''" by code_simp
  have missing: "node_at registry_root listing_fs ''components/radio'' = Inl ENOENT"
    by code_simp
  have blocked: "node_at registry_root listing_fs ''components/input/index.ts/x'' = Inl ENOTDIR"
    by code_simp
  have long: "node_at registry_root listing_fs (''components/'' @ long_name) = Inl ENAMETOOLONG"
    by code_simp
  have isfile: "node_at registry_root listing_fs ''components/input/index.ts'' =
      Inr (File (Bytes ''test content''))"
    by code_simp
  have there: "reaches (Dir components_entries) [''input'', ''index.ts'']"
    "within_reach (join registry_root ''components'') [''input'', ''index.ts'']"
    "reaches (Dir components_entries) [''button'']"
    "within_reach (join registry_root ''components'') [''button'']"
    "\<not> reaches (Dir components_entries) [''button'', ''index.tsx'']"
    by code_simp+
  note listed = storage_list_entries [of registry_root listing_fs "''components''"]
  from listed dir wf obtain entries where
    entries: "distinct entries"
      "\<forall>ss. (ss \<in> set entries) =
         (ss \<noteq> [] \<and> reaches (Dir components_entries) ss \<and>
          within_reach (join registry_root ''components'') ss)"
      "normal_path ''components'' \<longrightarrow>
       storage_list registry_root listing_fs ''components'' =
         Inr (map (\<lambda>ss. ''components'' @ ''/'' @ join_sep ss) entries)"
    by blast
  have r1: "\<exists>entries.
      distinct entries \<and>
      [''input'', ''index.ts''] \<in> set entries \<and> [''button''] \<in> set entries \<and>
      [''button'', ''index.tsx''] \<notin> set entries \<and>
      storage_list registry_root listing_fs ''components'' =
        Inr (map (\<lambda>ss. ''components'' @ ''/'' @ join_sep ss) entries)"
    using entries normal there by (intro exI [of _ entries]) simp
  have evaluated: "storage_list registry_root listing_fs ''components'' =
      Inr [''components/button'', ''components/input'', ''components/input/index.ts'',
        ''components/button/index.ts'', ''components/button/style.css'']"
    by code_simp
  have r2: "\<exists>paths.
      storage_list registry_root listing_fs ''components'' = Inr paths \<and>
      length paths = 5 \<and>
      set paths = {''components/button'', ''components/input'', ''components/input/index.ts'',
        ''components/button/index.ts'', ''components/button/style.css''}"
    unfolding evaluated by simp
  have r3: "storage_list registry_root listing_fs ''components/radio'' = Inr []"
    using storage_list_entries [of registry_root listing_fs "''components/radio''"] missing
    by blast
  have r4: "storage_list registry_root listing_fs ''components/input/index.ts/x'' =
      Inl ENOTDIR"
    using storage_list_entries [of registry_root listing_fs "''components/input/index.ts/x''"]
      blocked by blast
  have r5: "storage_list registry_root listing_fs (''components/'' @ long_name) =
      Inl ENAMETOOLONG"
    using storage_list_entries [of registry_root listing_fs "''components/'' @ long_name"]
      long by blast
  have r6: "storage_list registry_root listing_fs ''components/input/index.ts'' =
      Inl ENOTDIR"
    using storage_list_entries [of registry_root listing_fs "''components/input/index.ts''"]
      isfile by blast
  show ?thesis
    by (intro conjI) (rule dir wf normal r1 r2 missing r3 blocked r4 long r5 isfile r6)+
qed

text \<open>
  C9 as stated fails on "each path prefixed with the given prefix": listing
  \<open>./components/button\<close>, or \<open>/components/button\<close>, returns the paths below
  \<open>components/button\<close>, which do not start with the prefix as given.
\<close>

theorem storage_list_prefix_counterexample:
  "storage_list registry_root listing_fs ''./components/button'' =
     Inr [''components/button/index.ts'', ''components/button/style.css''] \<and>
   take (length ''./components/button'') ''components/button/index.ts'' \<noteq>
     ''./components/button'' \<and>
   storage_list registry_root listing_fs ''/components/button'' =
     Inr [''components/button/index.ts'', ''components/button/style.css''] \<and>
   take (length ''/components/button'') ''components/button/index.ts'' \<noteq>
     ''/components/button''"
  by code_simp

text \<open>
  C3, amended. GET /components/{name} answers 404 COMPONENT_NOT_FOUND when the storage
  finds nothing at \<open>components/{name}\<close> with ENOENT (nothing is there, nothing but
  directories stands on the way, no name or path is too long and none holds a null
  byte), or finds an empty
  directory. GET /components/{name}/versions/{version} answers 404 VERSION_NOT_FOUND when
  the storage finds nothing at the manifest's path with ENOENT. In every other case of a
  missing component or version the answer is 500 INTERNAL_ERROR: when the path fails
  with another code (ENOTDIR below a regular file, ENAMETOOLONG, ERR_INVALID_ARG_VALUE), when a regular file
  stands where the component's directory should be, and when a directory stands where
  the manifest should be.
\<close>

theorem not_found_responses:
  "(node_at rootDir fs (''components/'' @ name) = Inl ENOENT \<longrightarrow>
      getDetails rootDir fs now name =
        not_found ''COMPONENT_NOT_FOUND'' ''Component not found'') \<and>
   (node_at rootDir fs (''components/'' @ name) = Inr (Dir ENil) \<longrightarrow>
      getDetails rootDir fs now name =
        not_found ''COMPONENT_NOT_FOUND'' ''Component not found'') \<and>
   (\<forall>e. node_at rootDir fs (''components/'' @ name) = Inl e \<and> e \<noteq> ENOENT \<longrightarrow>
      getDetails rootDir fs now name = internal_error) \<and>
   (\<forall>c. node_at rootDir fs (''components/'' @ name) = Inr (File c) \<longrightarrow>
      getDetails rootDir fs now name = internal_error) \<and>
   (node_at rootDir fs (manifest_path name version) = Inl ENOENT \<longrightarrow>
      getVersion rootDir fs name version =
        not_found ''VERSION_NOT_FOUND'' ''Version not found'') \<and>
   (\<forall>e. node_at rootDir fs (manifest_path name version) = Inl e \<and> e \<noteq> ENOENT \<longrightarrow>
      getVersion rootDir fs name version = internal_error) \<and>
   (\<forall>es. node_at rootDir fs (manifest_path name version) = Inr (Dir es) \<longrightarrow>
      getVersion rootDir fs name version = internal_error)"
proof (intro conjI allI impI)
  assume "node_at rootDir fs (''components/'' @ name) = Inl ENOENT"
  then show "getDetails rootDir fs now name =
      not_found ''COMPONENT_NOT_FOUND'' ''Component not found''"
    by (rule getDetails_missing)
next
  assume "node_at rootDir fs (''components/'' @ name) = Inr (Dir ENil)"
  then show "getDetails rootDir fs now name =
      not_found ''COMPONENT_NOT_FOUND'' ''Component not found''"
    by (rule getDetails_empty)
next
  fix e
  assume "node_at rootDir fs (''components/'' @ name) = Inl e \<and> e \<noteq> ENOENT"
  then show "getDetails rootDir fs now name = internal_error"
    by (simp add: getDetails_error)
next
  fix c
  assume "node_at rootDir fs (''components/'' @ name) = Inr (File c)"
  then show "getDetails rootDir fs now name = internal_error"
    by (rule getDetails_file)
next
  assume "node_at rootDir fs (manifest_path name version) = Inl ENOENT"
  then have "storage_read rootDir fs (manifest_path name version) = Inl ENOENT"
    by (rule storage_read_missing)
  then show "getVersion rootDir fs name version =
      not_found ''VERSION_NOT_FOUND'' ''Version not found''"
    by (rule getVersion_missing)
next
  fix e
  assume a: "node_at rootDir fs (manifest_path name version) = Inl e \<and> e \<noteq> ENOENT"
  then have "storage_read rootDir fs (manifest_path name version) = Inl e"
    by (simp add: storage_read_missing)
  then show "getVersion rootDir fs name version = internal_error"
    using a by (simp add: getVersion_other_error)
next
  fix es
  assume "node_at rootDir fs (manifest_path name version) = Inr (Dir es)"
  then have "storage_read rootDir fs (manifest_path name version) = Inl EISDIR"
    by (rule storage_read_directory)
  then show "getVersion rootDir fs name version = internal_error"
    by (simp add: getVersion_other_error)
qed

theorem not_found_responses_witness:
  "node_at registry_root published_fs (''components/'' @ ''non-existent'') = Inl ENOENT \<and>
   getDetails registry_root published_fs ''2026-01-01T00:00:00.000Z'' ''non-existent'' =
     not_found ''COMPONENT_NOT_FOUND'' ''Component not found'' \<and>
   node_at registry_root published_fs (manifest_path ''test-button'' ''999.0.0'') = Inl ENOENT \<and>
   getVersion registry_root published_fs ''test-button'' ''999.0.0'' =
     not_found ''VERSION_NOT_FOUND'' ''Version not found'' \<and>
   node_at registry_root published_fs
     (manifest_path ''test-button'' ''1.0.0/component.json'') = Inl ENOTDIR \<and>
   getVersion registry_root published_fs ''test-button'' ''1.0.0/component.json'' =
     internal_error \<and>
   node_at registry_root published_fs (''components/'' @ long_name) = Inl ENAMETOOLONG \<and>
   getDetails registry_root published_fs ''2026-01-01T00:00:00.000Z'' long_name =
     internal_error \<and>
   node_at registry_root published_fs (manifest_path long_name ''1.0.0'') = Inl ENAMETOOLONG \<and>
   getVersion registry_root published_fs long_name ''1.0.0'' = internal_error \<and>
   node_at registry_root published_fs (''components/'' @ ''test-button/1.0.0/component.json'') =
     Inr (File (JsonText test_button)) \<and>
   getDetails registry_root published_fs ''2026-01-01T00:00:00.000Z''
     ''test-button/1.0.0/component.json'' = internal_error \<and>
   node_at registry_root published_fs (manifest_path null_name ''1.0.0'') =
     Inl ERR_INVALID_ARG_VALUE \<and>
   getVersion registry_root published_fs null_name ''1.0.0'' = internal_error"
proof -
  have no_dir: "node_at registry_root published_fs (''components/'' @ ''non-existent'') = Inl ENOENT"
    by code_simp
  have no_file: "node_at registry_root published_fs
      (manifest_path ''test-button'' ''999.0.0'') = Inl ENOENT"
    by code_simp
  have other: "node_at registry_root published_fs
      (manifest_path ''test-button'' ''1.0.0/component.json'') = Inl ENOTDIR"
    by code_simp
  have long: "node_at registry_root published_fs (''components/'' @ long_name) =
      Inl ENAMETOOLONG"
    "node_at registry_root published_fs (manifest_path long_name ''1.0.0'') = Inl ENAMETOOLONG"
    by code_simp+
  have isfile: "node_at registry_root published_fs
      (''components/'' @ ''test-button/1.0.0/component.json'') =
      Inr (File (JsonText test_button))"
    by code_simp
  have r1: "getDetails registry_root published_fs ''2026-01-01T00:00:00.000Z'' ''non-existent'' =
      not_found ''COMPONENT_NOT_FOUND'' ''Component not found''"
    using not_found_responses [where rootDir = registry_root and fs = published_fs
        and name = "''non-existent''"] no_dir
    by blast
  have r2: "getVersion registry_root published_fs ''test-button'' ''999.0.0'' =
      not_found ''VERSION_NOT_FOUND'' ''Version not found''"
    using not_found_responses [where rootDir = registry_root and fs = published_fs
        and name = "''test-button''" and version = "''999.0.0''"]
      no_file by blast
  have r3: "getVersion registry_root published_fs ''test-button''
      ''1.0.0/component.json'' = internal_error"
    using not_found_responses [where rootDir = registry_root and fs = published_fs
        and name = "''test-button''" and version = "''1.0.0/component.json''"]
      other by blast
  have r4: "getDetails registry_root published_fs ''2026-01-01T00:00:00.000Z'' long_name =
      internal_error"
    using not_found_responses [where rootDir = registry_root and fs = published_fs
        and name = long_name] long(1) by blast
  have r5: "getVersion registry_root published_fs long_name ''1.0.0'' = internal_error"
    using not_found_responses [where rootDir = registry_root and fs = published_fs
        and name = long_name and version = "''1.0.0''"] long(2) by blast
  have r6: "getDetails registry_root published_fs ''2026-01-01T00:00:00.000Z''
     ''test-button/1.0.0/component.json'' = internal_error"
    using not_found_responses [where rootDir = registry_root and fs = published_fs
        and name = "''test-button/1.0.0/component.json''"] isfile by blast
  have null: "node_at registry_root published_fs (manifest_path null_name ''1.0.0'') =
      Inl ERR_INVALID_ARG_VALUE"
    by code_simp
  have r7: "getVersion registry_root published_fs null_name ''1.0.0'' = internal_error"
    using not_found_responses [where rootDir = registry_root and fs = published_fs
        and name = null_name and version = "''1.0.0''"] null by blast
  show ?thesis
    by (intro conjI)
      (rule no_dir r1 no_file r2 other r3 long(1) r4 long(2) r5 isfile r6 null r7)+
qed

text \<open>
  C3 as stated fails: with only test-button 1.0.0 published, no version \<open>z\<close> of a
  component \<open>test-button/1.0.0/component.json\<close> exists, yet asking for it answers 500
  INTERNAL_ERROR, since the read rejects with ENOTDIR; and no component
  \<open>test-button/1.0.0\<close> was published, yet asking for its details answers 500 too.
\<close>

theorem not_found_counterexample:
  "storage_read registry_root published_fs
     (manifest_path ''test-button/1.0.0/component.json'' ''z'') = Inl ENOTDIR \<and>
   getVersion registry_root published_fs ''test-button/1.0.0/component.json'' ''z'' =
     \<lparr>status = 500, body = Failure ''INTERNAL_ERROR'' ''Internal server error''\<rparr> \<and>
   getDetails registry_root published_fs ''2026-01-01T00:00:00.000Z'' ''test-button/1.0.0'' =
     \<lparr>status = 500, body = Failure ''INTERNAL_ERROR'' ''Internal server error''\<rparr>"
  by code_simp

text \<open>
  C4, on two POST /components of the same name and version with different manifests,
  served at the same time on an empty registry. Each reads before the other has
  written, so neither finds a stored manifest; the first writes and answers 201, and
  its manifest is the published one; then the second writes over it and answers 201
  too, where a POST served after the first had answered would get 409. The published
  manifest is replaced in place.
\<close>

theorem overlapping_posts_replace_manifest:
  "ComponentSchema test_button = Some test_button \<and>
   ComponentSchema republished_button = Some republished_button \<and>
   metadata_string republished_button ''name'' = metadata_string test_button ''name'' \<and>
   metadata_string republished_button ''version'' = metadata_string test_button ''version'' \<and>
   republished_button \<noteq> test_button \<and>
   interleave registry_root [First, Second, First, Second, First, First]
     (Received test_button, Received republished_button, empty_fs) =
     (Answered \<lparr>status = 201, body = Payload test_button\<rparr>,
      AwaitingMkdir republished_button, published_fs) \<and>
   storage_read registry_root published_fs (manifest_path ''test-button'' ''1.0.0'') =
     Inr (JsonText test_button) \<and>
   fst (create registry_root published_fs republished_button) =
     \<lparr>status = 409, body = Failure ''VERSION_CONFLICT'' ''Version already exists''\<rparr> \<and>
   fst (snd (interleave registry_root [Second, Second]
     (Answered \<lparr>status = 201, body = Payload test_button\<rparr>,
      AwaitingMkdir republished_button, published_fs))) =
     Answered \<lparr>status = 201, body = Payload republished_button\<rparr> \<and>
   storage_read registry_root
     (snd (snd (interleave registry_root [Second, Second]
        (Answered \<lparr>status = 201, body = Payload test_button\<rparr>,
         AwaitingMkdir republished_button, published_fs))))
     (manifest_path ''test-button'' ''1.0.0'') = Inr (JsonText republished_button)"
  by code_simp

text \<open>
  C5, amended. When the stored payload is JSON that fails \<open>ComponentSchema\<close>, GET of the
  version answers 400 VALIDATION_ERROR. When it is JSON that passes, the answer is 200
  with what the schema returns for it: the payload without the keys the schema does not
  know, which itself passes the schema unchanged; so a manifest stored by POST is
  returned as stored. When the payload is not JSON at all, the answer is 500
  INTERNAL_ERROR.
\<close>

theorem stored_payload_validation:
  "(\<forall>payload.
      storage_read rootDir fs (manifest_path name version) = Inr (JsonText payload) \<and>
      ComponentSchema payload = None \<longrightarrow>
      getVersion rootDir fs name version = validation_error) \<and>
   (\<forall>payload component.
      storage_read rootDir fs (manifest_path name version) = Inr (JsonText payload) \<and>
      ComponentSchema payload = Some component \<longrightarrow>
      getVersion rootDir fs name version = \<lparr>status = 200, body = Payload component\<rparr> \<and>
      ComponentSchema component = Some component) \<and>
   (\<forall>raw.
      storage_read rootDir fs (manifest_path name version) = Inr (Bytes raw) \<longrightarrow>
      getVersion rootDir fs name version = internal_error) \<and>
   (\<forall>earlier requestBody component.
      status (fst (create rootDir earlier requestBody)) = 201 \<and>
      fs = snd (create rootDir earlier requestBody) \<and>
      ComponentSchema requestBody = Some component \<and>
      name = metadata_string component ''name'' \<and>
      version = metadata_string component ''version'' \<longrightarrow>
      storage_read rootDir fs (manifest_path name version) = Inr (JsonText component) \<and>
      getVersion rootDir fs name version = \<lparr>status = 200, body = Payload component\<rparr>)"
proof (intro conjI allI impI)
  fix payload
  assume "storage_read rootDir fs (manifest_path name version) = Inr (JsonText payload) \<and>
      ComponentSchema payload = None"
  then show "getVersion rootDir fs name version = validation_error"
    by (simp add: getVersion_invalid)
next
  fix payload component
  assume a: "storage_read rootDir fs (manifest_path name version) = Inr (JsonText payload) \<and>
      ComponentSchema payload = Some component"
  then show "getVersion rootDir fs name version = \<lparr>status = 200, body = Payload component\<rparr>"
    by (simp add: getVersion_valid)
  show "ComponentSchema component = Some component"
    using a idempotent_ComponentSchema idempotentD by blast
next
  fix raw
  assume "storage_read rootDir fs (manifest_path name version) = Inr (Bytes raw)"
  then show "getVersion rootDir fs name version = internal_error"
    by (rule getVersion_not_json)
next
  fix earlier requestBody component
  assume a: "status (fst (create rootDir earlier requestBody)) = 201 \<and>
      fs = snd (create rootDir earlier requestBody) \<and>
      ComponentSchema requestBody = Some component \<and>
      name = metadata_string component ''name'' \<and>
      version = metadata_string component ''version''"
  from a obtain c where c: "ComponentSchema requestBody = Some c"
    "storage_read rootDir (snd (create rootDir earlier requestBody))
       (manifest_path (metadata_string c ''name'') (metadata_string c ''version'')) =
       Inr (JsonText c)"
    using create_created [of rootDir earlier requestBody] by blast
  then show stored: "storage_read rootDir fs (manifest_path name version) = Inr (JsonText component)"
    using a by simp
  have "ComponentSchema component = Some component"
    using a idempotent_ComponentSchema idempotentD by blast
  then show "getVersion rootDir fs name version = \<lparr>status = 200, body = Payload component\<rparr>"
    using stored by (simp add: getVersion_valid)
qed

theorem stored_payload_validation_witness:
  "storage_read registry_root broken_fs (manifest_path ''card'' ''1.0.0'') =
     Inr (JsonText (JObj [(''files'', JArr [])])) \<and>
   ComponentSchema (JObj [(''files'', JArr [])]) = None \<and>
   getVersion registry_root broken_fs ''card'' ''1.0.0'' = validation_error \<and>
   storage_read registry_root broken_fs (manifest_path ''card'' ''1.1.0'') =
     Inr (Bytes ''not json'') \<and>
   getVersion registry_root broken_fs ''card'' ''1.1.0'' = internal_error \<and>
   storage_read registry_root card_fs (manifest_path ''card'' ''2.0.0'') =
     Inr (JsonText extra_key_manifest) \<and>
   ComponentSchema extra_key_manifest = Some card_manifest \<and>
   getVersion registry_root card_fs ''card'' ''2.0.0'' =
     \<lparr>status = 200, body = Payload card_manifest\<rparr> \<and>
   ComponentSchema card_manifest = Some card_manifest \<and>
   status (fst (create registry_root empty_fs test_button)) = 201 \<and>
   getVersion registry_root published_fs ''test-button'' ''1.0.0'' =
     \<lparr>status = 200, body = Payload test_button\<rparr>"
proof -
  have invalid: "storage_read registry_root broken_fs (manifest_path ''card'' ''1.0.0'') =
     Inr (JsonText (JObj [(''files'', JArr [])]))"
    "ComponentSchema (JObj [(''files'', JArr [])]) = None"
    by code_simp+
  have garbage: "storage_read registry_root broken_fs (manifest_path ''card'' ''1.1.0'') =
     Inr (Bytes ''not json'')"
    by code_simp
  have extra: "storage_read registry_root card_fs (manifest_path ''card'' ''2.0.0'') =
     Inr (JsonText extra_key_manifest)"
    "ComponentSchema extra_key_manifest = Some card_manifest"
    by code_simp+
  have posted: "status (fst (create registry_root empty_fs test_button)) = 201"
    "ComponentSchema test_button = Some test_button"
    "''test-button'' = metadata_string test_button ''name''"
    "''1.0.0'' = metadata_string test_button ''version''"
    by code_simp+
  have r1: "getVersion registry_root broken_fs ''card'' ''1.0.0'' = validation_error"
    using stored_payload_validation [of registry_root broken_fs "''card''" "''1.0.0''"] invalid
    by blast
  have r2: "getVersion registry_root broken_fs ''card'' ''1.1.0'' = internal_error"
    using stored_payload_validation [of registry_root broken_fs "''card''" "''1.1.0''"] garbage
    by blast
  have r3: "getVersion registry_root card_fs ''card'' ''2.0.0'' =
      \<lparr>status = 200, body = Payload card_manifest\<rparr> \<and>
      ComponentSchema card_manifest = Some card_manifest"
    using stored_payload_validation [of registry_root card_fs "''card''" "''2.0.0''"] extra
    by blast
  have r4: "getVersion registry_root published_fs ''test-button'' ''1.0.0'' =
      \<lparr>status = 200, body = Payload test_button\<rparr>"
    using stored_payload_validation [of registry_root published_fs "''test-button''" "''1.0.0''"]
      posted published_fs_def by blast
  show ?thesis using invalid garbage extra posted(1) r1 r2 r3 r4 by simp
qed

text \<open>
  C5 as stated fails on "returned unchanged": a stored payload with a key the schema
  does not know passes validation and is returned without that key. And a stored payload
  that is not JSON fails with 500, not with the validation error.
\<close>

theorem stored_payload_counterexample:
  "storage_read registry_root card_fs (manifest_path ''card'' ''2.0.0'') =
     Inr (JsonText extra_key_manifest) \<and>
   getVersion registry_root card_fs ''card'' ''2.0.0'' =
     \<lparr>status = 200, body = Payload card_manifest\<rparr> \<and>
   card_manifest \<noteq> extra_key_manifest \<and>
   getVersion registry_root broken_fs ''card'' ''1.1.0'' =
     \<lparr>status = 500, body = Failure ''INTERNAL_ERROR'' ''Internal server error''\<rparr>"
  by code_simp

text \<open>
  C8. In every state of a process that has not exited: when \<open>parseAsync\<close> rejects,
  \<open>run\<close> logs one more error line, the message of the error or 'An unknown error
  occurred' for a value that is not an Error, and exits with code 1. When it resolves,
  \<open>run\<close> changes nothing and nothing exits the process, which ends with code 0; so the
  exit code is 0 exactly when the run met no error.
\<close>

theorem run_exit_code:
  "exited p = None \<longrightarrow>
     run (Rejected error) p =
       p\<lparr>console_error := console_error p @
            [(''error'', case error of ErrorObject message \<Rightarrow> message
                          | NotAnError \<Rightarrow> ''An unknown error occurred'')],
         exited := Some 1\<rparr> \<and>
     exit_code (run (Rejected error) p) = 1 \<and>
     run Resolved p = p \<and>
     exit_code (run Resolved p) = 0 \<and>
     (exit_code (run parsed p) = 0) = (parsed = Resolved)"
  by (cases parsed; cases error)
     (simp_all add: run_def handleError_def process_exit_def logger_error_def
        exit_code_def split: thrown_value.splits)

theorem run_exit_code_witness:
  "exited earlier_lines = None \<and>
   run (Rejected (ErrorObject ''Registry unreachable'')) earlier_lines =
     \<lparr>console_error = [(''error'', ''first''), (''error'', ''Registry unreachable'')],
      exited = Some 1\<rparr> \<and>
   run (Rejected NotAnError) earlier_lines =
     \<lparr>console_error = [(''error'', ''first''), (''error'', ''An unknown error occurred'')],
      exited = Some 1\<rparr> \<and>
   exit_code (run (Rejected NotAnError) earlier_lines) = 1 \<and>
   run Resolved earlier_lines = earlier_lines \<and>
   exit_code (run Resolved earlier_lines) = 0"
proof -
  have live: "exited earlier_lines = None" by (simp add: earlier_lines_def)
  note message = run_exit_code [of earlier_lines "ErrorObject ''Registry unreachable''" Resolved]
  note unknown = run_exit_code [of earlier_lines NotAnError Resolved]
  have r1: "run (Rejected (ErrorObject ''Registry unreachable'')) earlier_lines =
     \<lparr>console_error = [(''error'', ''first''), (''error'', ''Registry unreachable'')],
      exited = Some 1\<rparr>"
    using message live by (simp add: earlier_lines_def)
  have r2: "run (Rejected NotAnError) earlier_lines =
     \<lparr>console_error = [(''error'', ''first''), (''error'', ''An unknown error occurred'')],
      exited = Some 1\<rparr>"
    using unknown live by (simp add: earlier_lines_def)
  have r3: "exit_code (run (Rejected NotAnError) earlier_lines) = 1"
    using unknown live by blast
  have r4: "run Resolved earlier_lines = earlier_lines"
    "exit_code (run Resolved earlier_lines) = 0"
    using unknown live by blast+
  show ?thesis by (intro conjI) (rule live r1 r2 r3 r4)+
qed

text \<open>
  C1, on the test's own registry (test-button 1.0.0 published): GET
  /components/test-button does not serve version 1.0.0, it answers 500. \<open>list\<close> returns
  paths from the storage root (\<open>components/test-button/1.0.0\<close>,
  \<open>components/test-button/1.0.0/component.json\<close>), the controller takes the greatest of
  them for a version name, and the manifest path built from it does not exist.
\<close>

theorem getDetails_latest_fails:
  "storage_list registry_root published_fs (''components/'' @ ''test-button'') =
     Inr [''components/test-button/1.0.0'', ''components/test-button/1.0.0/component.json''] \<and>
   last (js_sort [''components/test-button/1.0.0'',
                  ''components/test-button/1.0.0/component.json'']) =
     ''components/test-button/1.0.0/component.json'' \<and>
   storage_read registry_root published_fs
     (manifest_path ''test-button'' ''components/test-button/1.0.0/component.json'') =
     Inl ENOENT \<and>
   getDetails registry_root published_fs ''2026-01-01T00:00:00.000Z'' ''test-button'' =
     \<lparr>status = 500, body = Failure ''INTERNAL_ERROR'' ''Internal server error''\<rparr>"
  by code_simp

text \<open>
  C2, on the same registry: GET /components lists no component and reports total 0,
  where one component is published. Each listed path is looked up again below
  \<open>components/\<close> (\<open>components/components/test-button\<close>, ...), where nothing exists, so
  every entry is skipped.
\<close>

theorem list_components_empty:
  "storage_list registry_root published_fs ''components'' =
     Inr [''components/test-button'', ''components/test-button/1.0.0'',
          ''components/test-button/1.0.0/component.json''] \<and>
   storage_list registry_root published_fs (''components/'' @ ''components/test-button'') =
     Inr [] \<and>
   list_components registry_root published_fs None None =
     \<lparr>status = 200,
      body = Payload (JObj [(''components'', JArr []), (''total'', JNum 0),
                            (''page'', JNum 1), (''pageSize'', JNum 10)])\<rparr>"
  by code_simp

text \<open>
  C6, on the resolver modelled from the spec. When some name is reached from the root
  along a path of declared dependencies that already passed that name, \<open>resolve\<close> never
  ends with a ResolutionResult, whatever the fuel. When moreover the registry serves the
  root and every declared dependency, then with more units of fuel than the path is long
  \<open>resolve\<close> fails with CyclicDependency, and the path it reports starts and ends at the
  same name and follows declared dependencies from each name to the next.
\<close>

theorem cyclic_dependency_detected:
  "(trail fetchManifest rootRef visiting r \<and> fst r \<in> set visiting \<longrightarrow>
      resolve_dependencies fetchManifest combine fuel rootRef \<noteq> Some (Inr result)) \<and>
   ((\<exists>m. fetchManifest rootRef = Inr m) \<and> complete fetchManifest \<and>
    trail fetchManifest rootRef visiting r \<and> fst r \<in> set visiting \<and>
    length visiting < fuel \<longrightarrow>
      (\<exists>cycle. resolve_dependencies fetchManifest combine fuel rootRef = Some (Inl (CyclicDependency cycle)) \<and>
         2 \<le> length cycle \<and> hd cycle = last cycle \<and>
         successively (depends fetchManifest) cycle))"
proof (intro conjI impI)
  assume a: "trail fetchManifest rootRef visiting r \<and> fst r \<in> set visiting"
  show "resolve_dependencies fetchManifest combine fuel rootRef \<noteq> Some (Inr result)"
  proof
    assume "resolve_dependencies fetchManifest combine fuel rootRef = Some (Inr result)"
    then obtain t where "traverse fetchManifest fuel [(rootRef, [])]
        \<lparr>arena = [], resolved = [], warnings = []\<rparr> = Some (Inr t)"
      using resolve_result_traverse by blast
    moreover have "(r, visiting) \<in>
        set ((expand fetchManifest ^^ length visiting) [(rootRef, [])])"
      using a trail_in_level by blast
    ultimately have "fst (fst (r, visiting)) \<notin> set (snd (r, visiting))"
      by (rule traverse_ok_no_revisit)
    then show False using a by simp
  qed
next
  assume a: "(\<exists>m. fetchManifest rootRef = Inr m) \<and> complete fetchManifest \<and>
    trail fetchManifest rootRef visiting r \<and> fst r \<in> set visiting \<and>
    length visiting < fuel"
  then obtain m0 where m0: "fetchManifest rootRef = Inr m0" by blast
  have fetchable: "\<exists>m. fetchManifest r' = Inr m"
    if "(r', v') \<in> set ((expand fetchManifest ^^ j) [(rootRef, [])])" for j r' v'
  proof -
    have "trail fetchManifest rootRef v' r'" using level_trails [OF that] by simp
    then show ?thesis using a m0 trail_fetchable by blast
  qed
  have "(r, visiting) \<in> set ((expand fetchManifest ^^ length visiting) [(rootRef, [])])"
    using a trail_in_level by blast
  then have "\<exists>j r' v'. (r', v') \<in> set ((expand fetchManifest ^^ j) [(rootRef, [])]) \<and>
      fst r' \<in> set v' \<and>
      traverse fetchManifest fuel [(rootRef, [])] \<lparr>arena = [], resolved = [], warnings = []\<rparr> =
        Some (Inl (CyclicDependency (dropWhile (\<lambda>n. n \<noteq> fst r') v' @ [fst r'])))"
    using fetchable a by (intro traverse_finds_cycle [where item = "(r, visiting)"]) auto
  then obtain j r' v' where found:
    "(r', v') \<in> set ((expand fetchManifest ^^ j) [(rootRef, [])])" "fst r' \<in> set v'"
    "traverse fetchManifest fuel [(rootRef, [])] \<lparr>arena = [], resolved = [], warnings = []\<rparr> =
        Some (Inl (CyclicDependency (dropWhile (\<lambda>n. n \<noteq> fst r') v' @ [fst r'])))"
    by blast
  have tr: "trail fetchManifest rootRef v' r'" using level_trails [OF found(1)] by simp
  note c = reported_cycle [OF tr found(2)]
  have "resolve_dependencies fetchManifest combine fuel rootRef =
      Some (Inl (CyclicDependency (dropWhile (\<lambda>n. n \<noteq> fst r') v' @ [fst r'])))"
    using found(3) by (rule resolve_failure)
  then show "\<exists>cycle. resolve_dependencies fetchManifest combine fuel rootRef =
        Some (Inl (CyclicDependency cycle)) \<and>
      2 \<le> length cycle \<and> hd cycle = last cycle \<and>
      successively (depends fetchManifest) cycle"
    using c by (intro exI [of _ "dropWhile (\<lambda>n. n \<noteq> fst r') v' @ [fst r']"]) simp
qed

theorem cyclic_dependency_detected_witness:
  "(\<exists>m. abc_registry (''A'', ''1.0.0'') = Inr m) \<and> complete abc_registry \<and>
   trail abc_registry (''A'', ''1.0.0'') [''A'', ''B'', ''C''] (''A'', ''1.0.0'') \<and>
   (\<forall>result. resolve_dependencies abc_registry same_range 4 (''A'', ''1.0.0'') \<noteq> Some (Inr result)) \<and>
   (\<exists>cycle. resolve_dependencies abc_registry same_range 4 (''A'', ''1.0.0'') =
        Some (Inl (CyclicDependency cycle)) \<and>
      2 \<le> length cycle \<and> hd cycle = last cycle \<and> successively (depends abc_registry) cycle) \<and>
   resolve_dependencies abc_registry same_range 4 (''A'', ''1.0.0'') =
     Some (Inl (CyclicDependency [''A'', ''B'', ''C'', ''A'']))"
proof -
  have served: "\<exists>m. abc_registry (''A'', ''1.0.0'') = Inr m"
    by (simp add: abc_registry_def)
  have all: "complete abc_registry"
    unfolding complete_def abc_registry_def by (auto split: if_splits)
  have t0: "trail abc_registry (''A'', ''1.0.0'') [] (''A'', ''1.0.0'')"
    by (rule trail.start)
  have t1: "trail abc_registry (''A'', ''1.0.0'') ([] @ [fst (''A'', ''1.0.0'')]) (''B'', ''1.0.0'')"
    apply (rule trail.step [OF t0])
     apply (simp add: abc_registry_def)
    apply simp
    done
  have t2: "trail abc_registry (''A'', ''1.0.0'') ([''A''] @ [fst (''B'', ''1.0.0'')])
      (''C'', ''1.0.0'')"
    apply (rule trail.step [OF t1 [simplified]])
     apply (simp add: abc_registry_def)
    apply simp
    done
  have t3: "trail abc_registry (''A'', ''1.0.0'') ([''A'', ''B''] @ [fst (''C'', ''1.0.0'')])
      (''A'', ''1.0.0'')"
    apply (rule trail.step [OF t2 [simplified]])
     apply (simp add: abc_registry_def)
    apply simp
    done
  have path: "trail abc_registry (''A'', ''1.0.0'') [''A'', ''B'', ''C''] (''A'', ''1.0.0'')"
    using t3 by simp
  have again: "fst (''A'', ''1.0.0'') \<in> set [''A'', ''B'', ''C'']" by simp
  have enough: "length [''A'', ''B'', ''C''] < (4::nat)" by simp
  note inst = cyclic_dependency_detected [where fetchManifest = abc_registry
      and rootRef = "(''A'', ''1.0.0'')" and visiting = "[''A'', ''B'', ''C'']"
      and r = "(''A'', ''1.0.0'')" and fuel = 4 and combine = same_range]
  have never: "\<forall>result. resolve_dependencies abc_registry same_range 4 (''A'', ''1.0.0'') \<noteq> Some (Inr result)"
    using inst path again by blast
  have fails: "\<exists>cycle. resolve_dependencies abc_registry same_range 4 (''A'', ''1.0.0'') =
        Some (Inl (CyclicDependency cycle)) \<and>
      2 \<le> length cycle \<and> hd cycle = last cycle \<and> successively (depends abc_registry) cycle"
    using inst served all path again enough by blast
  have reported: "resolve_dependencies abc_registry same_range 4 (''A'', ''1.0.0'') =
     Some (Inl (CyclicDependency [''A'', ''B'', ''C'', ''A'']))"
    by code_simp
  show ?thesis using served all path never fails reported by blast
qed

text \<open>
  C7, on the orchestrator modelled from the spec. When the temporary paths are fresh and
  the rename of some staged file fails, \<open>install\<close> fails and the disk it leaves is the
  disk from before the install: every target path holds what it held before (nothing,
  if nothing was there) and no temporary file is left.
\<close>

theorem failed_install_leaves_disk:
  "fresh_temps staged disk \<and> (\<exists>s\<in>set staged. \<not> renames s) \<longrightarrow>
     (\<exists>f. fst (install renames force staged disk) = Inl f) \<and>
     snd (install renames force staged disk) = disk \<and>
     (\<forall>s\<in>set staged.
        snd (install renames force staged disk) (targetPath s) = disk (targetPath s) \<and>
        snd (install renames force staged disk) (tempPath s) = None)"
proof
  assume a: "fresh_temps staged disk \<and> (\<exists>s\<in>set staged. \<not> renames s)"
  then have r: "(\<exists>f. fst (install renames force staged disk) = Inl f) \<and>
         snd (install renames force staged disk) = disk"
    using install_fails_restores by blast
  moreover have "\<forall>s\<in>set staged. disk (tempPath s) = None"
    using a by (auto simp: fresh_temps_def list_all_iff)
  ultimately show "(\<exists>f. fst (install renames force staged disk) = Inl f) \<and>
     snd (install renames force staged disk) = disk \<and>
     (\<forall>s\<in>set staged.
        snd (install renames force staged disk) (targetPath s) = disk (targetPath s) \<and>
        snd (install renames force staged disk) (tempPath s) = None)"
    by simp
qed

theorem failed_install_leaves_disk_witness:
  "fresh_temps five_files project_disk \<and>
   \<not> third_fails (five_files ! 2) \<and>
   fst (install third_fails True five_files project_disk) = Inl (PromotionFailure ''ui/index.ts'') \<and>
   snd (install third_fails True five_files project_disk) = project_disk \<and>
   map (snd (install third_fails True five_files project_disk)) (map targetPath five_files) =
     [Some ''button v1'', None, None, None, None] \<and>
   map (snd (install third_fails True five_files project_disk)) (map tempPath five_files) =
     [None, None, None, None, None]"
proof -
  have fresh: "fresh_temps five_files project_disk" by code_simp
  have third: "\<not> third_fails (five_files ! 2)" by code_simp
  have member: "five_files ! 2 \<in> set five_files" by (simp add: five_files_def)
  have fails: "fst (install third_fails True five_files project_disk) =
      Inl (PromotionFailure ''ui/index.ts'')"
    unfolding install_forced by code_simp
  have "fresh_temps five_files project_disk \<and> (\<exists>s\<in>set five_files. \<not> third_fails s)"
    using fresh third member by blast
  with failed_install_leaves_disk [of five_files project_disk third_fails True]
  have "(\<exists>f. fst (install third_fails True five_files project_disk) = Inl f) \<and>
     snd (install third_fails True five_files project_disk) = project_disk \<and>
     (\<forall>s\<in>set five_files.
        snd (install third_fails True five_files project_disk) (targetPath s) =
          project_disk (targetPath s) \<and>
        snd (install third_fails True five_files project_disk) (tempPath s) = None)"
    by (rule mp)
  then have same: "snd (install third_fails True five_files project_disk) = project_disk"
    by (rule conjunct1 [OF conjunct2])
  have targets: "map project_disk (map targetPath five_files) =
      [Some ''button v1'', None, None, None, None]"
    by code_simp
  have temps: "map project_disk (map tempPath five_files) = [None, None, None, None, None]"
    by code_simp
  show ?thesis unfolding same by (intro conjI) (rule fresh third fails refl targets temps)+
qed

end
